theory Spec2Isabelle
  imports Main "HOL-Library.Sublist"
begin

section \<open>The libuv message pump: base/message_pump_uv.cc\<close>

text \<open>
  \<^verbatim>\<open>MessagePumpUV\<close> drives a delegate (immediate, delayed and idle work) and a
  libuv loop on one thread. Its members become the first five fields of the record
  \<open>state\<close>; the rest of the record is the part of the world the pump touches: the
  \<^verbatim>\<open>uv_async_t\<close> objects it allocates, the loops it creates for nested runs, and
  the clock that \<^verbatim>\<open>TimeTicks::Now()\<close> reads.

  Everything the pump calls out to (the three delegate operations, node's tick
  callback, \<^verbatim>\<open>uv_run\<close>) is foreign code that runs on the loop's thread and may call
  back into the pump's public methods, \<^verbatim>\<open>Run\<close> included. A run of the pump is
  therefore driven by a script: the list of the responses of the foreign calls it
  makes, in order. A run whose script ends before \<^verbatim>\<open>Run\<close> returns is
  \<open>Unfinished\<close>: the loop is still on the stack.
\<close>

subsection \<open>Time\<close>

text \<open>
  Modelled from the spec: \<^verbatim>\<open>TimeTicks\<close> and \<^verbatim>\<open>TimeDelta\<close> (base/time.h is not among
  the sources). The recorded deadline is "an optional absolute timestamp; null means
  no pending delayed work known", so \<^verbatim>\<open>TimeTicks()\<close> is \<open>None\<close> and
  \<^verbatim>\<open>is_null()\<close> tests for it; a \<^verbatim>\<open>TimeDelta\<close> is the difference of two timestamps
  and \<^verbatim>\<open>TimeDelta()\<close> is zero.
\<close>

type_synonym TimeTicks = "int option"
type_synonym TimeDelta = int

subsection \<open>The pump and its world\<close>

text \<open>
  Pointers are natural numbers, \<open>0\<close> is \<^verbatim>\<open>NULL\<close> and names the loop of
  \<^verbatim>\<open>uv_default_loop()\<close>; \<open>next_id\<close> is the next address the allocator hands out.
  \<open>uv_asyncs\<close> maps each live \<^verbatim>\<open>uv_async_t\<close> to the loop it was initialised on,
  \<open>uv_loops\<close> holds the loops made by \<^verbatim>\<open>uv_loop_new\<close> and not yet deleted.
  \<open>nesting_level\<close> is a C++ \<^verbatim>\<open>int\<close> that counts the runs on the call stack, and
  times are 64-bit counts of ticks since the machine started; neither comes near its
  bounds, so both are unbounded integers here.
\<close>

record state =
  keep_running :: bool
  nesting_level :: int
  delayed_work_time :: TimeTicks
  wakeup_event_ref :: nat
  wakeup_event :: nat
  uv_asyncs :: "nat \<Rightarrow> nat option"
  uv_loops :: "nat set"
  next_id :: nat
  clock :: int

text \<open>
  What the pump reads from its surroundings and never writes: whether node's
  environment \<^verbatim>\<open>node::g_env\<close> is set, and \<^verbatim>\<open>TimeDelta::InMilliseconds\<close>, which is
  declared in base/time.h and is taken as a parameter.
\<close>

record env =
  g_env :: bool
  InMilliseconds :: "TimeDelta \<Rightarrow> int"

text \<open>
  A call either returns (\<open>Normal\<close>), has not returned when the script ends
  (\<open>Unfinished\<close>), or ends the process (\<open>Fatal\<close>: a failed \<^verbatim>\<open>DCHECK\<close>, or
  undefined behaviour on a pointer that is not live).
\<close>

datatype status = Normal | Unfinished | Fatal

definition uv_default_loop :: nat where
  "uv_default_loop = 0"

text \<open>\<^verbatim>\<open>p = new uv_async_t; uv_async_init(loop, p, wakeup_callback)\<close>\<close>

definition new_uv_async :: "nat \<Rightarrow> state \<Rightarrow> nat \<times> state" where
  "new_uv_async loop s =
     (next_id s, s\<lparr>uv_asyncs := (uv_asyncs s)(next_id s \<mapsto> loop), next_id := Suc (next_id s)\<rparr>)"

text \<open>
  \<^verbatim>\<open>delete p\<close> on a \<^verbatim>\<open>uv_async_t*\<close>: nothing for \<^verbatim>\<open>NULL\<close>, undefined behaviour
  (\<open>None\<close>) for an object that is not live.
\<close>

definition delete_uv_async :: "nat \<Rightarrow> state \<Rightarrow> state option" where
  "delete_uv_async p s =
     (if p = 0 then Some s
      else if uv_asyncs s p = None then None
      else Some (s\<lparr>uv_asyncs := (uv_asyncs s)(p := None)\<rparr>))"

definition uv_loop_new :: "state \<Rightarrow> nat \<times> state" where
  "uv_loop_new s =
     (next_id s, s\<lparr>uv_loops := insert (next_id s) (uv_loops s), next_id := Suc (next_id s)\<rparr>)"

definition uv_loop_delete :: "nat \<Rightarrow> state \<Rightarrow> state" where
  "uv_loop_delete loop s = s\<lparr>uv_loops := uv_loops s - {loop}\<rparr>"

subsection \<open>Constructor, destructor and the small public methods\<close>

text \<open>
  Lines 36-42. The argument is the reading of the clock when the pump is built; the pump
  is built in a world with no other \<^verbatim>\<open>uv_async_t\<close> and no nested loop.
\<close>

definition MessagePumpUV :: "int \<Rightarrow> state" where
  "MessagePumpUV now =
     (let s0 = \<lparr>keep_running = True, nesting_level = 0, delayed_work_time = None,
                 wakeup_event_ref = 0, wakeup_event = 0,
                 uv_asyncs = Map.empty, uv_loops = {}, next_id = 1, clock = now\<rparr>;
          (p, s1) = new_uv_async uv_default_loop s0
      in s1\<lparr>wakeup_event_ref := p, wakeup_event := p\<rparr>)"

text \<open>Lines 44-47: \<^verbatim>\<open>delete wakeup_event_; wakeup_event_ = NULL;\<close>\<close>

definition MessagePumpUV_destructor :: "state \<Rightarrow> status \<times> state" where
  "MessagePumpUV_destructor s =
     (case delete_uv_async (wakeup_event s) s of
        None \<Rightarrow> (Fatal, s)
      | Some s' \<Rightarrow> (Normal, s'\<lparr>wakeup_event := 0\<rparr>))"

text \<open>Lines 136-138.\<close>

definition Quit :: "state \<Rightarrow> state" where
  "Quit s = s\<lparr>keep_running := False\<rparr>"

text \<open>
  Lines 140-144: \<^verbatim>\<open>uv_async_send(wakeup_event_ref_)\<close>. The send changes nothing the
  pump reads; on a handle that is not live it is undefined behaviour.
\<close>

definition ScheduleWork :: "state \<Rightarrow> status \<times> state" where
  "ScheduleWork s = (if uv_asyncs s (wakeup_event_ref s) = None then (Fatal, s) else (Normal, s))"

text \<open>Lines 146-152.\<close>

definition ScheduleDelayedWork :: "TimeTicks \<Rightarrow> state \<Rightarrow> state" where
  "ScheduleDelayedWork t s = s\<lparr>delayed_work_time := t\<rparr>"

subsection \<open>Foreign calls and their scripts\<close>

text \<open>
  What a foreign call does while it runs is a list of actions on the pump, and the
  value it returns (read only for the three delegate operations). \<open>CallRun cs\<close> is a
  reentrant \<^verbatim>\<open>Run\<close> whose own foreign calls answer with the script \<open>cs\<close>;
  \<open>Elapse d\<close> lets \<open>d\<close> ticks of time pass. The write of
  \<^verbatim>\<open>DoDelayedWork(&delayed_work_time_)\<close> through its argument has the effect of
  \<open>CallScheduleDelayedWork\<close>.
\<close>

datatype action =
    CallQuit
  | CallScheduleWork
  | CallScheduleDelayedWork TimeTicks
  | CallRun "call list"
  | Elapse nat
and call = Call (acts: "action list") (ret: bool)

type_synonym callback = "call \<Rightarrow> state \<Rightarrow> status \<times> state"

text \<open>The calls the loop makes, in the order it makes them, and what the delegate answered.\<close>

datatype step =
    DoWork
  | DoDelayedWork
  | DoIdleWork
  | Returned bool
  | CallTickCallback
  | uv_timer_start int
  | uv_run nat
  | uv_idle_stop
  | uv_timer_stop

text \<open>
  One foreign call: the next response of the script, run by \<open>cb\<close>. An empty script
  leaves the call \<open>Unfinished\<close>.
\<close>

definition invoke :: "callback \<Rightarrow> call list \<Rightarrow> state \<Rightarrow> status \<times> bool \<times> call list \<times> state" where
  "invoke cb cs s =
     (case cs of
        [] \<Rightarrow> (Unfinished, False, [], s)
      | c # cs' \<Rightarrow> (case cb c s of (st, s') \<Rightarrow> (st, ret c, cs', s')))"

subsection \<open>One iteration of the loop of Run (lines 75-121)\<close>

text \<open>
  An iteration ends with \<^verbatim>\<open>continue\<close> (or by reaching the end of the body), with
  \<^verbatim>\<open>break\<close>, or inside a foreign call that does not return. It yields the calls it
  made, the rest of the script and the state.
\<close>

datatype flow = Continue | Break | Halt status

type_synonym pass = "flow \<times> step list \<times> call list \<times> state"

definition emit :: "step list \<Rightarrow> pass \<Rightarrow> pass" where
  "emit pre p = (case p of (f, steps, cs, s) \<Rightarrow> (f, pre @ steps, cs, s))"

definition resumed :: "status \<Rightarrow> flow" where
  "resumed st = (if st = Normal then Continue else Halt st)"

text \<open>
  Lines 88-90 and 98-100:
  \<^verbatim>\<open>if (node::g_env) node::CallTickCallback(...); continue;\<close>
\<close>

definition tick :: "env \<Rightarrow> callback \<Rightarrow> call list \<Rightarrow> state \<Rightarrow> pass" where
  "tick e cb cs s =
     (if g_env e then
        (case invoke cb cs s of (st, _, cs', s') \<Rightarrow> (resumed st, [CallTickCallback], cs', s'))
      else (Continue, [], cs, s))"

text \<open>Lines 103-118: block in the reactor, bounded by the recorded deadline.\<close>

definition wait :: "env \<Rightarrow> callback \<Rightarrow> nat \<Rightarrow> call list \<Rightarrow> state \<Rightarrow> pass" where
  "wait e cb loop cs s =
     (case delayed_work_time s of
        None \<Rightarrow>
          (case invoke cb cs s of (st, _, cs', s') \<Rightarrow> (resumed st, [uv_run loop], cs', s'))
      | Some t \<Rightarrow>
          (let delay = t - clock s in
           if delay > 0 then
             (case invoke cb cs s of (st, _, cs', s') \<Rightarrow>
                if st = Normal then
                  (Continue,
                   [uv_timer_start (InMilliseconds e delay), uv_run loop,
                    uv_idle_stop, uv_timer_stop], cs', s')
                else (Halt st, [uv_timer_start (InMilliseconds e delay), uv_run loop], cs', s'))
           else (Continue, [], cs, s\<lparr>delayed_work_time := None\<rparr>)))"

text \<open>Lines 93-101.\<close>

definition idle_work :: "env \<Rightarrow> callback \<Rightarrow> nat \<Rightarrow> call list \<Rightarrow> state \<Rightarrow> pass" where
  "idle_work e cb loop cs s =
     (case invoke cb cs s of (st, did_work, cs', s') \<Rightarrow>
        if st \<noteq> Normal then (Halt st, [DoIdleWork], cs', s')
        else emit [DoIdleWork, Returned did_work]
          (if \<not> keep_running s' then (Break, [], cs', s')
           else if did_work then tick e cb cs' s'
           else wait e cb loop cs' s'))"

text \<open>Lines 80-91; \<open>did_work\<close> is what \<^verbatim>\<open>DoWork\<close> returned.\<close>

definition delayed_work :: "env \<Rightarrow> callback \<Rightarrow> nat \<Rightarrow> bool \<Rightarrow> call list \<Rightarrow> state \<Rightarrow> pass" where
  "delayed_work e cb loop did_work cs s =
     (case invoke cb cs s of (st, r, cs', s') \<Rightarrow>
        if st \<noteq> Normal then (Halt st, [DoDelayedWork], cs', s')
        else emit [DoDelayedWork, Returned r]
          (if \<not> keep_running s' then (Break, [], cs', s')
           else if did_work \<or> r then tick e cb cs' s'
           else idle_work e cb loop cs' s'))"

text \<open>Lines 76-78, then the rest of the body.\<close>

definition iteration :: "env \<Rightarrow> callback \<Rightarrow> nat \<Rightarrow> call list \<Rightarrow> state \<Rightarrow> pass" where
  "iteration e cb loop cs s =
     (case invoke cb cs s of (st, did_work, cs', s') \<Rightarrow>
        if st \<noteq> Normal then (Halt st, [DoWork], cs', s')
        else emit [DoWork, Returned did_work]
          (if \<not> keep_running s' then (Break, [], cs', s')
           else delayed_work e cb loop did_work cs' s'))"

subsection \<open>The loop and Run (lines 49-134)\<close>

text \<open>
  Every iteration that does not stop inside its first foreign call for want of a
  response uses up at least one response of the script, so the loop is a total
  function of the script: it ends with \<open>Normal\<close> at a \<^verbatim>\<open>break\<close>, and with the
  status of the foreign call that did not return otherwise.
\<close>

lemma invoke_rest: "invoke cb cs s = (st, r, cs', s') \<Longrightarrow> cs' = tl cs"
  by (auto simp: invoke_def split: list.splits prod.splits)

lemma emit_eq:
  "emit pre p = (f, steps, cs', s') \<longleftrightarrow> (\<exists>steps0. p = (f, steps0, cs', s') \<and> steps = pre @ steps0)"
  by (cases p) (auto simp: emit_def)

lemma tick_rest: "tick e cb cs s = (f, steps, cs', s') \<Longrightarrow> suffix cs' cs"
  by (auto simp: tick_def dest!: invoke_rest split: if_splits prod.splits intro: suffix_tl)

lemma wait_rest: "wait e cb loop cs s = (f, steps, cs', s') \<Longrightarrow> suffix cs' cs"
  by (auto simp: wait_def Let_def dest!: invoke_rest
      split: if_splits prod.splits option.splits intro: suffix_tl)

lemma idle_work_rest: "idle_work e cb loop cs s = (f, steps, cs', s') \<Longrightarrow> suffix cs' cs"
  by (auto simp: idle_work_def emit_eq dest!: invoke_rest tick_rest wait_rest
      split: if_splits prod.splits intro: suffix_tl dest: suffix_order.trans[OF _ suffix_tl])

lemma delayed_work_rest:
  "delayed_work e cb loop d cs s = (f, steps, cs', s') \<Longrightarrow> suffix cs' cs"
  by (auto simp: delayed_work_def emit_eq dest!: invoke_rest tick_rest idle_work_rest
      split: if_splits prod.splits intro: suffix_tl dest: suffix_order.trans[OF _ suffix_tl])

lemma iteration_rest:
  assumes "iteration e cb loop cs s = (f, steps, cs', s')" and "f \<noteq> Halt Unfinished"
  shows "strict_suffix cs' cs"
proof (cases cs)
  case Nil
  with assms show ?thesis
    by (auto simp: iteration_def invoke_def)
next
  case (Cons c rest)
  with assms(1) have "suffix cs' rest"
    by (auto simp: iteration_def invoke_def emit_eq dest!: delayed_work_rest
        split: if_splits prod.splits)
  with Cons show ?thesis
    by (auto simp: strict_suffix_def suffix_def)
qed

text \<open>
  \<^verbatim>\<open>for (;;) { ... }\<close>: the status at the end, the calls of each iteration in turn,
  and the state.
\<close>

function for_loop ::
  "env \<Rightarrow> callback \<Rightarrow> nat \<Rightarrow> call list \<Rightarrow> state \<Rightarrow> status \<times> step list list \<times> state" where
  "for_loop e cb loop cs s =
     (case iteration e cb loop cs s of
        (Continue, steps, cs', s') \<Rightarrow>
          (case for_loop e cb loop cs' s' of (st, log, s'') \<Rightarrow> (st, steps # log, s''))
      | (Break, steps, cs', s') \<Rightarrow> (Normal, [steps], s')
      | (Halt st, steps, cs', s') \<Rightarrow> (st, [steps], s'))"
  by pat_completeness auto
termination
  apply (relation "measure (\<lambda>(e, cb, loop, cs, s). length cs)")
   apply simp
  apply (auto dest!: iteration_rest[OF sym] simp: strict_suffix_def suffix_def)
  done

declare for_loop.simps [simp del]

text \<open>
  Modelled from the spec: the \<^verbatim>\<open>DCHECK\<close> macro (base/logging.h is not among the
  sources). The spec calls the check at the entry of \<^verbatim>\<open>Run\<close> a "fatal assertion":
  when the condition is false the process ends there (\<open>None\<close>), otherwise the code
  after the check runs.
\<close>

definition DCHECK :: "bool \<Rightarrow> 'a option \<Rightarrow> 'a option" where
  "DCHECK condition rest = (if condition then rest else None)"

text \<open>
  Lines 53-64: count the level, check the flag, and for a nested run create a loop and
  a wake signal of its own. The result is the loop this invocation polls, and the
  state.
\<close>

definition enter :: "state \<Rightarrow> (nat \<times> state) option" where
  "enter s0 =
     (let s1 = s0\<lparr>nesting_level := nesting_level s0 + 1\<rparr> in
      DCHECK (keep_running s1)
        (if nesting_level s1 > 1 then
           (let (loop, s2) = uv_loop_new s1;
                (p, s3) = new_uv_async loop s2
            in Some (loop, s3\<lparr>wakeup_event_ref := p\<rparr>))
         else Some (uv_default_loop, s1)))"

text \<open>Lines 123-133.\<close>

definition leave :: "nat \<Rightarrow> state \<Rightarrow> status \<times> state" where
  "leave loop s =
     (if nesting_level s > 1 then
        (case delete_uv_async (wakeup_event_ref s) (uv_loop_delete loop s) of
           None \<Rightarrow> (Fatal, s)
         | Some s' \<Rightarrow>
             (Normal, s'\<lparr>wakeup_event_ref := wakeup_event s', keep_running := True,
                          nesting_level := nesting_level s' - 1\<rparr>))
      else (Normal, s\<lparr>keep_running := True, nesting_level := nesting_level s - 1\<rparr>))"

text \<open>
  \<^verbatim>\<open>Run(delegate)\<close>: the delegate and the rest of the foreign code are the script
  \<open>delegate\<close>, run by \<open>cb\<close>.
\<close>

definition Run ::
  "env \<Rightarrow> callback \<Rightarrow> call list \<Rightarrow> state \<Rightarrow> status \<times> step list list \<times> state" where
  "Run e cb delegate s0 =
     (case enter s0 of
        None \<Rightarrow> (Fatal, [], s0\<lparr>nesting_level := nesting_level s0 + 1\<rparr>)
      | Some (loop, s) \<Rightarrow>
          (case for_loop e cb loop delegate s of
             (Normal, log, s') \<Rightarrow> (case leave loop s' of (st, s'') \<Rightarrow> (st, log, s''))
           | (st, log, s') \<Rightarrow> (st, log, s')))"

subsection \<open>Foreign code that calls back into the pump\<close>

text \<open>
  \<open>Run\<close> hands the responses of its script to \<open>cb\<close> and to nothing else, which is
  what lets a response contain a reentrant \<open>Run\<close>.
\<close>

lemma invoke_cong:
  "(\<And>c t. c \<in> set cs \<Longrightarrow> cb c t = cb' c t) \<Longrightarrow> invoke cb cs s = invoke cb' cs s"
  by (cases cs) (auto simp: invoke_def)

lemma set_tl_subset: "c \<in> set (tl cs) \<Longrightarrow> c \<in> set cs"
  by (cases cs) auto

lemma tick_cong:
  assumes "\<And>c t. c \<in> set cs \<Longrightarrow> cb c t = cb' c t"
  shows "tick e cb cs s = tick e cb' cs s"
proof -
  have inv: "invoke cb cs s = invoke cb' cs s"
    using assms by (rule invoke_cong)
  show ?thesis
    unfolding tick_def inv by (rule refl)
qed

lemma wait_cong:
  assumes "\<And>c t. c \<in> set cs \<Longrightarrow> cb c t = cb' c t"
  shows "wait e cb loop cs s = wait e cb' loop cs s"
proof -
  have inv: "invoke cb cs s = invoke cb' cs s"
    using assms by (rule invoke_cong)
  show ?thesis
    unfolding wait_def inv by (rule refl)
qed

lemma idle_work_cong:
  assumes "\<And>c t. c \<in> set cs \<Longrightarrow> cb c t = cb' c t"
  shows "idle_work e cb loop cs s = idle_work e cb' loop cs s"
proof -
  obtain st r cs' s' where i: "invoke cb' cs s = (st, r, cs', s')"
    by (cases "invoke cb' cs s") auto
  then have "cs' = tl cs" by (rule invoke_rest)
  then have sub: "\<And>c t. c \<in> set cs' \<Longrightarrow> cb c t = cb' c t"
    using assms by (auto dest: set_tl_subset)
  have inv: "invoke cb cs s = invoke cb' cs s"
    using assms by (rule invoke_cong)
  show ?thesis
    by (simp add: idle_work_def inv i tick_cong[of cs' cb cb', OF sub]
        wait_cong[of cs' cb cb', OF sub])
qed

lemma delayed_work_cong:
  assumes "\<And>c t. c \<in> set cs \<Longrightarrow> cb c t = cb' c t"
  shows "delayed_work e cb loop d cs s = delayed_work e cb' loop d cs s"
proof -
  obtain st r cs' s' where i: "invoke cb' cs s = (st, r, cs', s')"
    by (cases "invoke cb' cs s") auto
  then have "cs' = tl cs" by (rule invoke_rest)
  then have sub: "\<And>c t. c \<in> set cs' \<Longrightarrow> cb c t = cb' c t"
    using assms by (auto dest: set_tl_subset)
  have inv: "invoke cb cs s = invoke cb' cs s"
    using assms by (rule invoke_cong)
  show ?thesis
    by (simp add: delayed_work_def inv i tick_cong[of cs' cb cb', OF sub]
        idle_work_cong[of cs' cb cb', OF sub])
qed

lemma iteration_cong:
  assumes "\<And>c t. c \<in> set cs \<Longrightarrow> cb c t = cb' c t"
  shows "iteration e cb loop cs s = iteration e cb' loop cs s"
proof -
  obtain st r cs' s' where i: "invoke cb' cs s = (st, r, cs', s')"
    by (cases "invoke cb' cs s") auto
  then have "cs' = tl cs" by (rule invoke_rest)
  then have sub: "\<And>c t. c \<in> set cs' \<Longrightarrow> cb c t = cb' c t"
    using assms by (auto dest: set_tl_subset)
  have inv: "invoke cb cs s = invoke cb' cs s"
    using assms by (rule invoke_cong)
  show ?thesis
    by (simp add: iteration_def inv i delayed_work_cong[of cs' cb cb', OF sub])
qed

lemma for_loop_cong:
  "(\<And>c t. c \<in> set cs \<Longrightarrow> cb c t = cb' c t) \<Longrightarrow>
   for_loop e cb loop cs s = for_loop e cb' loop cs s"
proof (induction e cb loop cs s rule: for_loop.induct)
  case (1 e cb loop cs s)
  have it: "iteration e cb loop cs s = iteration e cb' loop cs s"
    using "1.prems" by (rule iteration_cong)
  show ?case
  proof (cases "iteration e cb loop cs s")
    case (fields f steps cs' s')
    show ?thesis
    proof (cases f)
      case Continue
      with fields have "strict_suffix cs' cs"
        by (auto dest: iteration_rest)
      then have "set cs' \<subseteq> set cs"
        by (auto simp: strict_suffix_def dest: set_mono_suffix)
      with "1.prems" have "for_loop e cb loop cs' s' = for_loop e cb' loop cs' s'"
        using "1.IH"[OF fields[symmetric, unfolded Continue] refl refl] fields Continue by blast
      with fields Continue it show ?thesis
        by (simp add: for_loop.simps[of e cb loop cs s] for_loop.simps[of e cb' loop cs s])
    next
      case Break
      with fields it show ?thesis
        by (simp add: for_loop.simps[of e cb loop cs s] for_loop.simps[of e cb' loop cs s])
    next
      case (Halt st)
      with fields it show ?thesis
        by (simp add: for_loop.simps[of e cb loop cs s] for_loop.simps[of e cb' loop cs s])
    qed
  qed
qed

lemma Run_cong [fundef_cong]:
  assumes "e = e'" "cs = cs'" "s = s'" "\<And>c t. c \<in> set cs' \<Longrightarrow> cb c t = cb' c t"
  shows "Run e cb cs s = Run e' cb' cs' s'"
proof -
  have loop_eq: "\<And>loop t. for_loop e' cb loop cs' t = for_loop e' cb' loop cs' t"
    using assms(4) by (rule for_loop_cong)
  show ?thesis
    unfolding Run_def assms(1-3) loop_eq by (rule refl)
qed

text \<open>
  A foreign call runs its actions in order; an action that does not return ends it.
  The log of a reentrant run stays with that run.
\<close>

fun callback :: "env \<Rightarrow> call \<Rightarrow> state \<Rightarrow> status \<times> state"
and perform_all :: "env \<Rightarrow> action list \<Rightarrow> state \<Rightarrow> status \<times> state"
and perform :: "env \<Rightarrow> action \<Rightarrow> state \<Rightarrow> status \<times> state" where
  "callback e (Call as r) s = perform_all e as s"
| "perform_all e [] s = (Normal, s)"
| "perform_all e (a # as) s =
     (case perform e a s of
        (Normal, s') \<Rightarrow> perform_all e as s'
      | (st, s') \<Rightarrow> (st, s'))"
| "perform e CallQuit s = (Normal, Quit s)"
| "perform e CallScheduleWork s = ScheduleWork s"
| "perform e (CallScheduleDelayedWork t) s = (Normal, ScheduleDelayedWork t s)"
| "perform e (Elapse d) s = (Normal, s\<lparr>clock := clock s + int d\<rparr>)"
| "perform e (CallRun cs) s =
     (case Run e (\<lambda>c t. callback e c t) cs s of (st, log, s') \<Rightarrow> (st, s'))"

subsection \<open>Reading a run\<close>

text \<open>
  The calls of an iteration, the log of a run, and the four calls the loop orders by
  priority: the three bands of delegate work and the blocking poll.
\<close>

definition steps_of :: "pass \<Rightarrow> step list" where
  "steps_of p = fst (snd p)"

definition log_of :: "status \<times> step list list \<times> state \<Rightarrow> step list list" where
  "log_of r = fst (snd r)"

fun scheduling :: "step \<Rightarrow> bool" where
  "scheduling DoWork = True"
| "scheduling DoDelayedWork = True"
| "scheduling DoIdleWork = True"
| "scheduling (uv_run loop) = True"
| "scheduling _ = False"

text \<open>
  An instance of the surroundings for concrete runs: node's environment is set, and a
  \<^verbatim>\<open>TimeDelta\<close> counts microseconds, which \<^verbatim>\<open>InMilliseconds\<close> divides by 1000 as C++
  divides integers (Chromium's base/time.cc; that file is not among the sources and
  the spec does not describe the conversion, so the loop takes it as a parameter and
  only concrete runs use this instance).
\<close>

definition whole_milliseconds :: "TimeDelta \<Rightarrow> int" where
  "whole_milliseconds d = (if d < 0 then - ((- d) div 1000) else d div 1000)"

definition node_env :: env where
  "node_env = \<lparr>g_env = True, InMilliseconds = whole_milliseconds\<rparr>"

subsection \<open>Shapes, states and scripts the properties refer to\<close>

text \<open>
  The calls that block in the reactor, and how an iteration in which the delegate did
  work can end: it has made none of those calls, and it ends at a \<^verbatim>\<open>break\<close> with
  the flag cleared and no tick, or at a \<^verbatim>\<open>continue\<close> right after the tick callback
  (when node's environment is set), or inside a foreign call that does not return.
\<close>

fun blocking :: "step \<Rightarrow> bool" where
  "blocking (uv_run loop) = True"
| "blocking (uv_timer_start ms) = True"
| "blocking _ = False"

definition busy_shape :: "env \<Rightarrow> flow \<Rightarrow> step list \<Rightarrow> state \<Rightarrow> bool" where
  "busy_shape e f steps s' \<longleftrightarrow>
     \<not> list_ex blocking steps \<and>
     (case f of
        Break \<Rightarrow> \<not> keep_running s' \<and> CallTickCallback \<notin> set steps
      | Continue \<Rightarrow>
          (if g_env e then steps \<noteq> [] \<and> last steps = CallTickCallback
           else CallTickCallback \<notin> set steps)
      | Halt st \<Rightarrow> st \<noteq> Normal)"

text \<open>
  The state the delegate of the outermost run sees when the loop starts, and the state
  the delegate of a run nested in it sees.
\<close>

definition in_Run :: state where
  "in_Run = snd (the (enter (MessagePumpUV 0)))"

definition in_nested_Run :: state where
  "in_nested_Run = snd (the (enter in_Run))"

text \<open>
  Scripts: a delegate whose \<^verbatim>\<open>DoWork\<close> runs a nested loop that quits, and then
  quits itself in \<^verbatim>\<open>DoDelayedWork\<close>; the same three levels deep; a quiet delegate
  and a \<^verbatim>\<open>Quit\<close> from a callback that \<^verbatim>\<open>uv_run\<close> dispatches; a \<^verbatim>\<open>Quit\<close> from the
  tick callback.
\<close>

definition quit_nested :: "call list" where
  "quit_nested = [Call [CallRun [Call [CallQuit] True]] True, Call [CallQuit] False]"

definition three_deep :: "call list" where
  "three_deep =
     [Call [CallRun [Call [CallRun [Call [CallQuit] True]] True, Call [CallQuit] False]] True,
      Call [CallQuit] False]"

definition quit_in_uv_run :: "call list" where
  "quit_in_uv_run =
     [Call [] False, Call [] False, Call [] False, Call [CallQuit] False, Call [] True]"

definition quit_in_tick :: "call list" where
  "quit_in_tick = [Call [] True, Call [] False, Call [CallQuit] False, Call [] False]"

text \<open>
  Two runs whose \<^verbatim>\<open>DoWork\<close> schedules delayed work 500 and 5000 microseconds after
  the pump was built, with nothing else to do.
\<close>

definition sub_millisecond_run :: "status \<times> step list list \<times> state" where
  "sub_millisecond_run =
     Run node_env (callback node_env)
       [Call [CallScheduleDelayedWork (Some 500)] False, Call [] False, Call [] False,
        Call [CallQuit] False, Call [] False]
       (MessagePumpUV 0)"

definition five_millisecond_run :: "status \<times> step list list \<times> state" where
  "five_millisecond_run =
     Run node_env (callback node_env)
       [Call [CallScheduleDelayedWork (Some 5000)] False, Call [] False, Call [] False,
        Call [CallQuit] False, Call [] False]
       (MessagePumpUV 0)"

section \<open>Properties\<close>

subsection \<open>Evaluation and shape of an iteration\<close>

lemma invoke_Nil [simp]: "invoke cb [] s = (Unfinished, False, [], s)"
  by (simp add: invoke_def)

lemma invoke_Cons [simp]:
  "invoke cb (c # cs) s = (case cb c s of (st, s') \<Rightarrow> (st, ret c, cs, s'))"
  by (simp add: invoke_def)

lemma tick_Halt: "tick e cb cs s = (Halt st, steps, cs', s') \<Longrightarrow> st \<noteq> Normal"
  by (auto simp: tick_def resumed_def split: if_splits prod.splits)

lemma wait_Halt: "wait e cb loop cs s = (Halt st, steps, cs', s') \<Longrightarrow> st \<noteq> Normal"
  by (auto simp: wait_def resumed_def Let_def split: if_splits prod.splits option.splits)

lemma idle_work_Halt: "idle_work e cb loop cs s = (Halt st, steps, cs', s') \<Longrightarrow> st \<noteq> Normal"
  by (auto simp: idle_work_def emit_eq dest: tick_Halt wait_Halt split: if_splits prod.splits)

lemma delayed_work_Halt:
  "delayed_work e cb loop d cs s = (Halt st, steps, cs', s') \<Longrightarrow> st \<noteq> Normal"
  by (auto simp: delayed_work_def emit_eq dest: tick_Halt idle_work_Halt
      split: if_splits prod.splits)

lemma iteration_Halt: "iteration e cb loop cs s = (Halt st, steps, cs', s') \<Longrightarrow> st \<noteq> Normal"
  by (auto simp: iteration_def emit_eq dest: delayed_work_Halt split: if_splits prod.splits)

lemma steps_of_emit: "steps_of (emit pre p) = pre @ steps_of p"
  by (cases p) (simp add: emit_def steps_of_def)

lemma steps_of_tuple: "steps_of (f, steps, cs, s) = steps"
  by (simp add: steps_of_def)

lemma tick_scheduling: "filter scheduling (steps_of (tick e cb cs s)) = []"
  by (simp add: tick_def steps_of_def split: prod.splits)

lemma wait_scheduling:
  "prefix (filter scheduling (steps_of (wait e cb loop cs s))) [uv_run loop]"
  by (simp add: wait_def steps_of_def Let_def split: prod.splits option.splits)

lemma idle_work_scheduling:
  "prefix (filter scheduling (steps_of (idle_work e cb loop cs s))) [DoIdleWork, uv_run loop]"
proof -
  obtain st r cs' s' where i: "invoke cb cs s = (st, r, cs', s')"
    by (cases "invoke cb cs s") auto
  show ?thesis
    using wait_scheduling[of e cb loop cs' s']
    by (simp add: idle_work_def i steps_of_emit steps_of_tuple tick_scheduling)
qed

lemma delayed_work_scheduling:
  "prefix (filter scheduling (steps_of (delayed_work e cb loop d cs s)))
     [DoDelayedWork, DoIdleWork, uv_run loop]"
proof -
  obtain st r cs' s' where i: "invoke cb cs s = (st, r, cs', s')"
    by (cases "invoke cb cs s") auto
  show ?thesis
    using idle_work_scheduling[of e cb loop cs' s']
    by (simp add: delayed_work_def i steps_of_emit steps_of_tuple tick_scheduling)
qed

lemma iteration_scheduling:
  "prefix (filter scheduling (steps_of (iteration e cb loop cs s)))
     [DoWork, DoDelayedWork, DoIdleWork, uv_run loop]"
proof -
  obtain st r cs' s' where i: "invoke cb cs s = (st, r, cs', s')"
    by (cases "invoke cb cs s") auto
  show ?thesis
    using delayed_work_scheduling[of e cb loop r cs' s']
    by (simp add: iteration_def i steps_of_emit steps_of_tuple)
qed

lemma for_loop_log:
  "steps \<in> set (log_of (for_loop e cb loop cs s)) \<Longrightarrow>
   \<exists>cs0 s0. steps = steps_of (iteration e cb loop cs0 s0)"
proof (induction e cb loop cs s rule: for_loop.induct)
  case (1 e cb loop cs s)
  obtain f st cs' s' where it: "iteration e cb loop cs s = (f, st, cs', s')"
    by (cases "iteration e cb loop cs s") auto
  show ?case
  proof (cases f)
    case Continue
    with it "1.prems" have "steps = st \<or> steps \<in> set (log_of (for_loop e cb loop cs' s'))"
      by (auto simp: for_loop.simps[of e cb loop cs s] log_of_def split: prod.splits)
    then show ?thesis
    proof
      assume "steps = st"
      with it show ?thesis by (metis steps_of_tuple)
    next
      assume "steps \<in> set (log_of (for_loop e cb loop cs' s'))"
      with "1.IH"[OF it[symmetric, unfolded Continue] refl refl] show ?thesis by blast
    qed
  next
    case Break
    with it "1.prems" have "steps = st"
      by (auto simp: for_loop.simps[of e cb loop cs s] log_of_def)
    with it show ?thesis by (metis steps_of_tuple)
  next
    case (Halt x)
    with it "1.prems" have "steps = st"
      by (auto simp: for_loop.simps[of e cb loop cs s] log_of_def)
    with it show ?thesis by (metis steps_of_tuple)
  qed
qed

lemma Run_log_cases:
  "log_of (Run e cb delegate s) = [] \<or>
   (\<exists>loop s1. enter s = Some (loop, s1) \<and>
      log_of (Run e cb delegate s) = log_of (for_loop e cb loop delegate s1))"
proof (cases "enter s")
  case None
  then show ?thesis by (simp add: Run_def log_of_def)
next
  case (Some a)
  obtain loop s1 where a: "a = (loop, s1)" by (cases a) auto
  obtain st log s' where l: "for_loop e cb loop delegate s1 = (st, log, s')"
    by (cases "for_loop e cb loop delegate s1") auto
  show ?thesis
    by (cases st) (simp_all add: Run_def log_of_def Some a l split: prod.splits)
qed

lemma Run_log:
  assumes "steps \<in> set (log_of (Run e cb delegate s))"
  shows "\<exists>loop cs0 s0. steps = steps_of (iteration e cb loop cs0 s0)"
proof -
  from Run_log_cases[of e cb delegate s] assms
  obtain loop s1 where "steps \<in> set (log_of (for_loop e cb loop delegate s1))"
    by auto
  then show ?thesis
    by (blast dest: for_loop_log)
qed

subsection \<open>What a run leaves of the nesting level\<close>

lemma tick_nesting:
  assumes "\<And>c t t'. c \<in> set cs \<Longrightarrow> cb c t = (Normal, t') \<Longrightarrow> nesting_level t' = nesting_level t"
    and "tick e cb cs s = (f, steps, cs', s')" and "f = Continue \<or> f = Break"
  shows "nesting_level s' = nesting_level s"
  using assms
  by (cases cs) (auto simp: tick_def resumed_def split: if_splits prod.splits)

lemma wait_nesting:
  assumes "\<And>c t t'. c \<in> set cs \<Longrightarrow> cb c t = (Normal, t') \<Longrightarrow> nesting_level t' = nesting_level t"
    and "wait e cb loop cs s = (f, steps, cs', s')" and "f = Continue \<or> f = Break"
  shows "nesting_level s' = nesting_level s"
  using assms
  by (cases cs)
    (auto simp: wait_def resumed_def Let_def split: if_splits prod.splits option.splits)

lemma idle_work_nesting:
  assumes H: "\<And>c t t'. c \<in> set cs \<Longrightarrow> cb c t = (Normal, t') \<Longrightarrow> nesting_level t' = nesting_level t"
    and r: "idle_work e cb loop cs s = (f, steps, cs', s')" and f: "f = Continue \<or> f = Break"
  shows "nesting_level s' = nesting_level s"
proof (cases cs)
  case Nil
  with r f show ?thesis by (auto simp: idle_work_def)
next
  case (Cons c cs0)
  obtain st s1 where c: "cb c s = (st, s1)" by (cases "cb c s") auto
  with r f Cons have st: "st = Normal"
    by (auto simp: idle_work_def split: if_splits)
  with H[of c s s1] c Cons have n1: "nesting_level s1 = nesting_level s" by simp
  have H0: "\<And>c t t'. c \<in> set cs0 \<Longrightarrow> cb c t = (Normal, t') \<Longrightarrow> nesting_level t' = nesting_level t"
    using H Cons by auto
  from r Cons c st consider
      "s' = s1"
    | steps0 where "tick e cb cs0 s1 = (f, steps0, cs', s')"
    | steps0 where "wait e cb loop cs0 s1 = (f, steps0, cs', s')"
    by (auto simp: idle_work_def emit_eq split: if_splits)
  then show ?thesis
  proof cases
    case 1
    with n1 show ?thesis by simp
  next
    case 2
    from tick_nesting[OF H0 2 f] n1 show ?thesis by simp
  next
    case 3
    from wait_nesting[OF H0 3 f] n1 show ?thesis by simp
  qed
qed

lemma delayed_work_nesting:
  assumes H: "\<And>c t t'. c \<in> set cs \<Longrightarrow> cb c t = (Normal, t') \<Longrightarrow> nesting_level t' = nesting_level t"
    and r: "delayed_work e cb loop d cs s = (f, steps, cs', s')" and f: "f = Continue \<or> f = Break"
  shows "nesting_level s' = nesting_level s"
proof (cases cs)
  case Nil
  with r f show ?thesis by (auto simp: delayed_work_def)
next
  case (Cons c cs0)
  obtain st s1 where c: "cb c s = (st, s1)" by (cases "cb c s") auto
  with r f Cons have st: "st = Normal"
    by (auto simp: delayed_work_def split: if_splits)
  with H[of c s s1] c Cons have n1: "nesting_level s1 = nesting_level s" by simp
  have H0: "\<And>c t t'. c \<in> set cs0 \<Longrightarrow> cb c t = (Normal, t') \<Longrightarrow> nesting_level t' = nesting_level t"
    using H Cons by auto
  from r Cons c st consider
      "s' = s1"
    | steps0 where "tick e cb cs0 s1 = (f, steps0, cs', s')"
    | steps0 where "idle_work e cb loop cs0 s1 = (f, steps0, cs', s')"
    by (auto simp: delayed_work_def emit_eq split: if_splits)
  then show ?thesis
  proof cases
    case 1
    with n1 show ?thesis by simp
  next
    case 2
    from tick_nesting[OF H0 2 f] n1 show ?thesis by simp
  next
    case 3
    from idle_work_nesting[OF H0 3 f] n1 show ?thesis by simp
  qed
qed

lemma iteration_nesting:
  assumes H: "\<And>c t t'. c \<in> set cs \<Longrightarrow> cb c t = (Normal, t') \<Longrightarrow> nesting_level t' = nesting_level t"
    and r: "iteration e cb loop cs s = (f, steps, cs', s')" and f: "f = Continue \<or> f = Break"
  shows "nesting_level s' = nesting_level s"
proof (cases cs)
  case Nil
  with r f show ?thesis by (auto simp: iteration_def)
next
  case (Cons c cs0)
  obtain st s1 where c: "cb c s = (st, s1)" by (cases "cb c s") auto
  with r f Cons have st: "st = Normal"
    by (auto simp: iteration_def split: if_splits)
  with H[of c s s1] c Cons have n1: "nesting_level s1 = nesting_level s" by simp
  have H0: "\<And>c t t'. c \<in> set cs0 \<Longrightarrow> cb c t = (Normal, t') \<Longrightarrow> nesting_level t' = nesting_level t"
    using H Cons by auto
  from r Cons c st consider
      "s' = s1"
    | steps0 where "delayed_work e cb loop (ret c) cs0 s1 = (f, steps0, cs', s')"
    by (auto simp: iteration_def emit_eq split: if_splits)
  then show ?thesis
  proof cases
    case 1
    with n1 show ?thesis by simp
  next
    case 2
    from delayed_work_nesting[OF H0 2 f] n1 show ?thesis by simp
  qed
qed

lemma for_loop_nesting:
  "(\<And>c t t'. c \<in> set cs \<Longrightarrow> cb c t = (Normal, t') \<Longrightarrow> nesting_level t' = nesting_level t) \<Longrightarrow>
   for_loop e cb loop cs s = (Normal, log, s') \<Longrightarrow> nesting_level s' = nesting_level s"
proof (induction e cb loop cs s arbitrary: log s' rule: for_loop.induct)
  case (1 e cb loop cs s)
  obtain f steps cs1 s1 where it: "iteration e cb loop cs s = (f, steps, cs1, s1)"
    by (cases "iteration e cb loop cs s") auto
  show ?case
  proof (cases f)
    case Continue
    with it have "strict_suffix cs1 cs" by (auto dest: iteration_rest)
    then have sub: "set cs1 \<subseteq> set cs"
      by (auto simp: strict_suffix_def dest: set_mono_suffix)
    from it Continue "1.prems"(1) have n1: "nesting_level s1 = nesting_level s"
      by (auto dest: iteration_nesting[rotated])
    from it Continue "1.prems"(2) obtain log1
      where fl: "for_loop e cb loop cs1 s1 = (Normal, log1, s')"
      by (auto simp: for_loop.simps[of e cb loop cs s] split: prod.splits)
    have "nesting_level s' = nesting_level s1"
    proof (rule "1.IH"[OF it[symmetric, unfolded Continue] refl refl refl])
      show "\<And>c t t'. c \<in> set cs1 \<Longrightarrow> cb c t = (Normal, t') \<Longrightarrow>
          nesting_level t' = nesting_level t"
        using "1.prems"(1) sub by blast
      show "for_loop e cb loop cs1 s1 = (Normal, log1, s')" by (rule fl)
    qed
    with n1 show ?thesis by simp
  next
    case Break
    with it "1.prems"(2) have "s' = s1"
      by (simp add: for_loop.simps[of e cb loop cs s])
    with it Break "1.prems"(1) show ?thesis
      by (auto dest: iteration_nesting[rotated])
  next
    case (Halt st)
    with it "1.prems"(2) have "st = Normal"
      by (simp add: for_loop.simps[of e cb loop cs s])
    with it Halt show ?thesis by (auto dest: iteration_Halt)
  qed
qed

lemma enter_nesting: "enter s = Some (loop, s1) \<Longrightarrow> nesting_level s1 = nesting_level s + 1"
  by (auto simp: enter_def DCHECK_def Let_def uv_loop_new_def new_uv_async_def split: if_splits)

lemma leave_Normal:
  "leave loop s = (Normal, s') \<Longrightarrow> keep_running s' \<and> nesting_level s' = nesting_level s - 1"
  by (auto simp: leave_def delete_uv_async_def uv_loop_delete_def split: if_splits option.splits)

lemma Run_Normal:
  assumes "Run e cb delegate s = (Normal, log, s')"
  shows "\<exists>loop s1 s2. enter s = Some (loop, s1) \<and>
           for_loop e cb loop delegate s1 = (Normal, log, s2) \<and> leave loop s2 = (Normal, s')"
proof (cases "enter s")
  case None
  with assms show ?thesis by (simp add: Run_def)
next
  case (Some a)
  obtain loop s1 where a: "a = (loop, s1)" by (cases a) auto
  obtain st log1 s2 where l: "for_loop e cb loop delegate s1 = (st, log1, s2)"
    by (cases "for_loop e cb loop delegate s1") auto
  from assms Some a l show ?thesis
    by (cases st) (auto simp: Run_def split: prod.splits)
qed

lemma Run_nesting:
  assumes "\<And>c t t'. c \<in> set delegate \<Longrightarrow> cb c t = (Normal, t') \<Longrightarrow> nesting_level t' = nesting_level t"
    and "Run e cb delegate s = (Normal, log, s')"
  shows "nesting_level s' = nesting_level s"
proof -
  from Run_Normal[OF assms(2)] obtain loop s1 s2 where
    en: "enter s = Some (loop, s1)" and fl: "for_loop e cb loop delegate s1 = (Normal, log, s2)"
    and le: "leave loop s2 = (Normal, s')" by blast
  have "nesting_level s2 = nesting_level s1"
    using assms(1) fl by (rule for_loop_nesting)
  with enter_nesting[OF en] leave_Normal[OF le] show ?thesis by simp
qed

lemma callback_nesting:
  "callback e c s = (Normal, s') \<Longrightarrow> nesting_level s' = nesting_level s"
  and perform_all_nesting:
  "perform_all e as s = (Normal, s') \<Longrightarrow> nesting_level s' = nesting_level s"
  and perform_nesting:
  "perform e a s = (Normal, s') \<Longrightarrow> nesting_level s' = nesting_level s"
proof (induction e c s and e as s and e a s arbitrary: s' and s' and s'
    rule: callback_perform_all_perform.induct)
  case (1 e as r s)
  then show ?case by simp
next
  case (2 e s)
  then show ?case by simp
next
  case (3 e a as s)
  obtain st s1 where p: "perform e a s = (st, s1)" by (cases "perform e a s") auto
  with "3.prems" have st: "st = Normal" by (cases st) auto
  with p "3.prems" have "perform_all e as s1 = (Normal, s')" by simp
  with "3.IH"(2)[OF p[symmetric] st] have "nesting_level s' = nesting_level s1" by simp
  with "3.IH"(1)[of s1] p st show ?case by simp
next
  case (4 e s)
  then show ?case by (auto simp: Quit_def)
next
  case (5 e s)
  then show ?case by (auto simp: ScheduleWork_def split: if_splits)
next
  case (6 e t s)
  then show ?case by (auto simp: ScheduleDelayedWork_def)
next
  case (7 e d s)
  then show ?case by auto
next
  case (8 e cs s)
  obtain st log s1 where r: "Run e (\<lambda>c t. callback e c t) cs s = (st, log, s1)"
    by (cases "Run e (\<lambda>c t. callback e c t) cs s") auto
  with "8.prems" have "st = Normal" "s1 = s'" by auto
  with r have r': "Run e (\<lambda>c t. callback e c t) cs s = (Normal, log, s')" by simp
  show ?case
    using "8.IH" r' by (rule Run_nesting)
qed

subsection \<open>An iteration, call by call\<close>

lemma emit_tuple [simp]: "emit pre (f, steps, cs, s) = (f, pre @ steps, cs, s)"
  by (simp add: emit_def)

lemma iteration_break:
  "cb c s = (Normal, s') \<Longrightarrow> \<not> keep_running s' \<Longrightarrow>
   iteration e cb loop (c # cs) s = (Break, [DoWork, Returned (ret c)], cs, s')"
  by (simp add: iteration_def)

lemma iteration_goes_on:
  "cb c s = (Normal, s') \<Longrightarrow> keep_running s' \<Longrightarrow>
   iteration e cb loop (c # cs) s =
     emit [DoWork, Returned (ret c)] (delayed_work e cb loop (ret c) cs s')"
  by (simp add: iteration_def)

lemma delayed_work_break:
  "cb c s = (Normal, s') \<Longrightarrow> \<not> keep_running s' \<Longrightarrow>
   delayed_work e cb loop d (c # cs) s = (Break, [DoDelayedWork, Returned (ret c)], cs, s')"
  by (simp add: delayed_work_def)

lemma delayed_work_did_work:
  "cb c s = (Normal, s') \<Longrightarrow> keep_running s' \<Longrightarrow> d \<or> ret c \<Longrightarrow>
   delayed_work e cb loop d (c # cs) s =
     emit [DoDelayedWork, Returned (ret c)] (tick e cb cs s')"
  by (auto simp: delayed_work_def)

lemma delayed_work_goes_on:
  "cb c s = (Normal, s') \<Longrightarrow> keep_running s' \<Longrightarrow> \<not> d \<Longrightarrow> \<not> ret c \<Longrightarrow>
   delayed_work e cb loop d (c # cs) s =
     emit [DoDelayedWork, Returned False] (idle_work e cb loop cs s')"
  by (simp add: delayed_work_def)

lemma idle_work_break:
  "cb c s = (Normal, s') \<Longrightarrow> \<not> keep_running s' \<Longrightarrow>
   idle_work e cb loop (c # cs) s = (Break, [DoIdleWork, Returned (ret c)], cs, s')"
  by (simp add: idle_work_def)

lemma idle_work_did_work:
  "cb c s = (Normal, s') \<Longrightarrow> keep_running s' \<Longrightarrow> ret c \<Longrightarrow>
   idle_work e cb loop (c # cs) s = emit [DoIdleWork, Returned True] (tick e cb cs s')"
  by (simp add: idle_work_def)

lemma idle_work_goes_on:
  "cb c s = (Normal, s') \<Longrightarrow> keep_running s' \<Longrightarrow> \<not> ret c \<Longrightarrow>
   idle_work e cb loop (c # cs) s = emit [DoIdleWork, Returned False] (wait e cb loop cs s')"
  by (simp add: idle_work_def)

lemma tick_returns:
  "g_env e \<Longrightarrow> cb c s = (Normal, s') \<Longrightarrow>
   tick e cb (c # cs) s = (Continue, [CallTickCallback], cs, s')"
  by (simp add: tick_def resumed_def)

lemma tick_absent: "\<not> g_env e \<Longrightarrow> tick e cb cs s = (Continue, [], cs, s)"
  by (simp add: tick_def)

lemma wait_no_deadline:
  "delayed_work_time s = None \<Longrightarrow> cb c s = (Normal, s') \<Longrightarrow>
   wait e cb loop (c # cs) s = (Continue, [uv_run loop], cs, s')"
  by (simp add: wait_def resumed_def)

lemma wait_deadline_ahead:
  "delayed_work_time s = Some t \<Longrightarrow> clock s < t \<Longrightarrow> cb c s = (Normal, s') \<Longrightarrow>
   wait e cb loop (c # cs) s =
     (Continue,
      [uv_timer_start (InMilliseconds e (t - clock s)), uv_run loop, uv_idle_stop, uv_timer_stop],
      cs, s')"
  by (simp add: wait_def)

lemma wait_deadline_passed:
  "delayed_work_time s = Some t \<Longrightarrow> t \<le> clock s \<Longrightarrow>
   wait e cb loop cs s = (Continue, [], cs, s\<lparr>delayed_work_time := None\<rparr>)"
  by (simp add: wait_def)

lemma for_loop_Continue:
  "iteration e cb loop cs s = (Continue, steps, cs', s') \<Longrightarrow>
   for_loop e cb loop cs s =
     (case for_loop e cb loop cs' s' of (st, log, s'') \<Rightarrow> (st, steps # log, s''))"
  by (simp add: for_loop.simps[of e cb loop cs s])

lemma for_loop_Break:
  "iteration e cb loop cs s = (Break, steps, cs', s') \<Longrightarrow>
   for_loop e cb loop cs s = (Normal, [steps], s')"
  by (simp add: for_loop.simps[of e cb loop cs s])

lemma delayed_work_begins:
  "\<exists>more. steps_of (delayed_work e cb loop d cs s) = DoDelayedWork # more"
proof -
  obtain st r cs' s' where i: "invoke cb cs s = (st, r, cs', s')"
    by (cases "invoke cb cs s") auto
  show ?thesis
    by (simp add: delayed_work_def i steps_of_emit steps_of_tuple)
qed

lemma MessagePumpUV_fields:
  "keep_running (MessagePumpUV n)" "nesting_level (MessagePumpUV n) = 0"
  "delayed_work_time (MessagePumpUV n) = None" "clock (MessagePumpUV n) = n"
  "wakeup_event (MessagePumpUV n) = 1" "wakeup_event_ref (MessagePumpUV n) = 1"
  "uv_asyncs (MessagePumpUV n) 1 = Some 0"
  by (simp_all add: MessagePumpUV_def new_uv_async_def uv_default_loop_def)

lemma node_env_fields: "g_env node_env" "InMilliseconds node_env = whole_milliseconds"
  by (simp_all add: node_env_def)

lemma iteration_starts: "\<exists>more. steps_of (iteration e cb loop cs s) = DoWork # more"
proof -
  obtain st r cs' s' where i: "invoke cb cs s = (st, r, cs', s')"
    by (cases "invoke cb cs s") auto
  show ?thesis
    by (simp add: iteration_def i steps_of_emit steps_of_tuple)
qed

lemma iteration_called:
  assumes "iteration e cb loop cs s = (f, steps, cs', s')" and "f = Continue \<or> f = Break"
  shows "\<exists>c cs0 s1 rest. cs = c # cs0 \<and> cb c s = (Normal, s1) \<and>
           steps = DoWork # Returned (ret c) # rest"
proof (cases cs)
  case Nil
  with assms show ?thesis by (auto simp: iteration_def)
next
  case (Cons c cs0)
  obtain st s1 where c: "cb c s = (st, s1)" by (cases "cb c s") auto
  with assms Cons have "st = Normal"
    by (auto simp: iteration_def split: if_splits)
  with assms Cons c show ?thesis
    by (auto simp: iteration_def emit_eq split: if_splits)
qed

lemma for_loop_called:
  assumes "for_loop e cb loop cs s = (Normal, log, s')"
  shows "\<exists>c cs0 s1 rest more. cs = c # cs0 \<and> cb c s = (Normal, s1) \<and>
           log = (DoWork # Returned (ret c) # rest) # more"
proof -
  obtain f steps cs' s1 where it: "iteration e cb loop cs s = (f, steps, cs', s1)"
    by (cases "iteration e cb loop cs s") auto
  have "f = Continue \<or> f = Break"
  proof (cases f)
    case (Halt st)
    with it assms have "st = Normal"
      by (simp add: for_loop.simps[of e cb loop cs s])
    with it Halt show ?thesis by (auto dest: iteration_Halt)
  qed simp_all
  from iteration_called[OF it this] obtain c cs0 s2 rest
    where "cs = c # cs0" "cb c s = (Normal, s2)" "steps = DoWork # Returned (ret c) # rest"
    by blast
  moreover from it assms have "\<exists>more. log = steps # more"
    by (cases f) (auto simp: for_loop.simps[of e cb loop cs s] split: prod.splits)
  ultimately show ?thesis by blast
qed

subsection \<open>Iterations in which the delegate did work\<close>

lemma busy_shape_iff:
  "busy_shape e f steps s' \<longleftrightarrow>
     (\<forall>l. uv_run l \<notin> set steps) \<and> (\<forall>ms. uv_timer_start ms \<notin> set steps) \<and>
     (f = Break \<and> \<not> keep_running s' \<and> CallTickCallback \<notin> set steps \<or>
      f = Continue \<and>
        (if g_env e then steps \<noteq> [] \<and> last steps = CallTickCallback
         else CallTickCallback \<notin> set steps) \<or>
      (\<exists>st. f = Halt st \<and> st \<noteq> Normal))"
proof -
  have "list_ex blocking steps \<longleftrightarrow> (\<exists>l. uv_run l \<in> set steps) \<or> (\<exists>ms. uv_timer_start ms \<in> set steps)"
  proof
    assume "list_ex blocking steps"
    then obtain x where x: "x \<in> set steps" "blocking x" by (auto simp: list_ex_iff)
    have "(\<exists>l. x = uv_run l) \<or> (\<exists>ms. x = uv_timer_start ms)"
      using x(2) by (cases x) simp_all
    with x(1) show "(\<exists>l. uv_run l \<in> set steps) \<or> (\<exists>ms. uv_timer_start ms \<in> set steps)"
      by blast
  next
    assume "(\<exists>l. uv_run l \<in> set steps) \<or> (\<exists>ms. uv_timer_start ms \<in> set steps)"
    then show "list_ex blocking steps"
      unfolding list_ex_iff by (metis blocking.simps(1,2))
  qed
  then show ?thesis
    by (cases f) (auto simp: busy_shape_def)
qed

lemma tick_shape:
  assumes "tick e cb cs s = (f, steps, cs', s')"
  shows "(f = Continue \<and> (if g_env e then steps = [CallTickCallback] else steps = [])) \<or>
         (\<exists>st. f = Halt st \<and> st \<noteq> Normal \<and> steps = [CallTickCallback])"
  using assms
  by (cases cs) (auto simp: tick_def resumed_def split: if_splits prod.splits)

lemma wait_no_Returned: "Returned b \<notin> set (steps_of (wait e cb loop cs s))"
  by (simp add: wait_def steps_of_def Let_def split: prod.splits option.splits)

lemma busy_idle_work:
  assumes r: "idle_work e cb loop cs s = (f, steps, cs', s')" and w: "Returned True \<in> set steps"
  shows "busy_shape e f steps s'"
proof (cases cs)
  case Nil
  with r w show ?thesis by (auto simp: idle_work_def)
next
  case (Cons c cs0)
  obtain st s1 where c: "cb c s = (st, s1)" by (cases "cb c s") auto
  show ?thesis
  proof (cases "st = Normal")
    case False
    with r w Cons c show ?thesis by (auto simp: idle_work_def)
  next
    case True
    show ?thesis
    proof (cases "keep_running s1")
      case False
      with r Cons c True show ?thesis
        by (auto simp: idle_work_break busy_shape_iff)
    next
      case kr: True
      show ?thesis
      proof (cases "ret c")
        case True
        obtain f0 st0 cs1 s2 where t: "tick e cb cs0 s1 = (f0, st0, cs1, s2)"
          by (cases "tick e cb cs0 s1") auto
        from r Cons c \<open>st = Normal\<close> kr True t
        have "f = f0" "steps = [DoIdleWork, Returned True] @ st0" "s' = s2"
          by (simp_all add: idle_work_did_work)
        with tick_shape[OF t] show ?thesis
          by (auto simp: busy_shape_iff split: if_splits)
      next
        case False
        with r Cons c \<open>st = Normal\<close> kr
        have "steps = [DoIdleWork, Returned False] @ steps_of (wait e cb loop cs0 s1)"
          by (cases "wait e cb loop cs0 s1") (simp add: idle_work_goes_on steps_of_def)
        with w wait_no_Returned[of True e cb loop cs0 s1] show ?thesis by simp
      qed
    qed
  qed
qed

lemma busy_delayed_work:
  assumes r: "delayed_work e cb loop d cs s = (f, steps, cs', s')"
    and w: "d \<or> Returned True \<in> set steps"
  shows "busy_shape e f steps s'"
proof (cases cs)
  case Nil
  with r w show ?thesis by (auto simp: delayed_work_def busy_shape_iff)
next
  case (Cons c cs0)
  obtain st s1 where c: "cb c s = (st, s1)" by (cases "cb c s") auto
  show ?thesis
  proof (cases "st = Normal")
    case False
    with r w Cons c show ?thesis by (auto simp: delayed_work_def busy_shape_iff)
  next
    case True
    show ?thesis
    proof (cases "keep_running s1")
      case False
      with r Cons c True show ?thesis
        by (auto simp: delayed_work_break busy_shape_iff)
    next
      case kr: True
      show ?thesis
      proof (cases "d \<or> ret c")
        case True
        obtain f0 st0 cs1 s2 where t: "tick e cb cs0 s1 = (f0, st0, cs1, s2)"
          by (cases "tick e cb cs0 s1") auto
        from r Cons c \<open>st = Normal\<close> kr True t
        have "f = f0" "steps = [DoDelayedWork, Returned (ret c)] @ st0" "s' = s2"
          by (simp_all add: delayed_work_did_work)
        with tick_shape[OF t] show ?thesis
          by (auto simp: busy_shape_iff split: if_splits)
      next
        case False
        obtain f0 st0 cs1 s2 where i: "idle_work e cb loop cs0 s1 = (f0, st0, cs1, s2)"
          by (cases "idle_work e cb loop cs0 s1") auto
        from r Cons c \<open>st = Normal\<close> kr False i
        have eq: "f = f0" "steps = [DoDelayedWork, Returned False] @ st0" "s' = s2"
          by (simp_all add: delayed_work_goes_on)
        with w False have "Returned True \<in> set st0" by auto
        from busy_idle_work[OF i this] eq show ?thesis
          by (auto simp: busy_shape_iff split: if_splits)
      qed
    qed
  qed
qed

lemma busy_iteration:
  assumes r: "iteration e cb loop cs s = (f, steps, cs', s')" and w: "Returned True \<in> set steps"
  shows "busy_shape e f steps s'"
proof (cases cs)
  case Nil
  with r w show ?thesis by (auto simp: iteration_def)
next
  case (Cons c cs0)
  obtain st s1 where c: "cb c s = (st, s1)" by (cases "cb c s") auto
  show ?thesis
  proof (cases "st = Normal")
    case False
    with r w Cons c show ?thesis by (auto simp: iteration_def)
  next
    case True
    show ?thesis
    proof (cases "keep_running s1")
      case False
      with r Cons c True show ?thesis
        by (auto simp: iteration_break busy_shape_iff)
    next
      case kr: True
      obtain f0 st0 cs1 s2 where i: "delayed_work e cb loop (ret c) cs0 s1 = (f0, st0, cs1, s2)"
        by (cases "delayed_work e cb loop (ret c) cs0 s1") auto
      from r Cons c \<open>st = Normal\<close> kr i
      have eq: "f = f0" "steps = [DoWork, Returned (ret c)] @ st0" "s' = s2"
        by (simp_all add: iteration_goes_on)
      with w have "ret c \<or> Returned True \<in> set st0" by auto
      from busy_delayed_work[OF i this] eq show ?thesis
        by (auto simp: busy_shape_iff split: if_splits)
    qed
  qed
qed

subsection \<open>Where the timer is armed\<close>

lemma wait_timer:
  "uv_timer_start ms \<in> set (steps_of (wait e cb loop cs s)) \<Longrightarrow>
   \<exists>t. delayed_work_time s = Some t \<and> 0 < t - clock s \<and> ms = InMilliseconds e (t - clock s)"
  by (auto simp: wait_def steps_of_def Let_def split: prod.splits option.splits if_splits)

lemma tick_no_timer: "uv_timer_start ms \<notin> set (steps_of (tick e cb cs s))"
  by (simp add: tick_def steps_of_def split: prod.splits)

lemma idle_work_timer:
  "uv_timer_start ms \<in> set (steps_of (idle_work e cb loop cs s)) \<Longrightarrow>
   \<exists>cs0 s0. uv_timer_start ms \<in> set (steps_of (wait e cb loop cs0 s0))"
proof -
  obtain st r cs' s' where i: "invoke cb cs s = (st, r, cs', s')"
    by (cases "invoke cb cs s") auto
  assume "uv_timer_start ms \<in> set (steps_of (idle_work e cb loop cs s))"
  with i tick_no_timer[of ms e cb cs' s'] show ?thesis
    by (auto simp: idle_work_def steps_of_emit steps_of_tuple split: if_splits)
qed

lemma delayed_work_timer:
  "uv_timer_start ms \<in> set (steps_of (delayed_work e cb loop d cs s)) \<Longrightarrow>
   \<exists>cs0 s0. uv_timer_start ms \<in> set (steps_of (wait e cb loop cs0 s0))"
proof -
  obtain st r cs' s' where i: "invoke cb cs s = (st, r, cs', s')"
    by (cases "invoke cb cs s") auto
  assume "uv_timer_start ms \<in> set (steps_of (delayed_work e cb loop d cs s))"
  with i tick_no_timer[of ms e cb cs' s'] show ?thesis
    by (auto simp: delayed_work_def steps_of_emit steps_of_tuple
        dest: idle_work_timer split: if_splits)
qed

lemma iteration_timer:
  "uv_timer_start ms \<in> set (steps_of (iteration e cb loop cs s)) \<Longrightarrow>
   \<exists>cs0 s0. uv_timer_start ms \<in> set (steps_of (wait e cb loop cs0 s0))"
proof -
  obtain st r cs' s' where i: "invoke cb cs s = (st, r, cs', s')"
    by (cases "invoke cb cs s") auto
  assume "uv_timer_start ms \<in> set (steps_of (iteration e cb loop cs s))"
  with i show ?thesis
    by (auto simp: iteration_def steps_of_emit steps_of_tuple
        dest: delayed_work_timer split: if_splits)
qed

section \<open>The claims\<close>

subsection \<open>The order of the steps of an iteration\<close>

text \<open>
  C1. In every iteration of the loop of every run (nested runs included, whatever the
  foreign code answers), the calls to \<^verbatim>\<open>DoWork\<close>, \<^verbatim>\<open>DoDelayedWork\<close>,
  \<^verbatim>\<open>DoIdleWork\<close> and \<^verbatim>\<open>uv_run\<close> that the iteration makes are an initial part of
  exactly that sequence: each is made at most once, none is made unless the ones before
  it were made, and they are never reordered.
\<close>

theorem priority_order:
  "steps \<in> set (log_of (Run e cb delegate s)) \<Longrightarrow>
   \<exists>loop. prefix (filter scheduling steps) [DoWork, DoDelayedWork, DoIdleWork, uv_run loop]"
  by (blast dest: Run_log intro: iteration_scheduling)

theorem priority_order_witness:
  "[DoWork, Returned False, DoDelayedWork, Returned False, DoIdleWork, Returned False, uv_run 0]
     \<in> set (log_of (Run node_env (callback node_env)
          [Call [] False, Call [] False, Call [] False, Call [CallQuit] False, Call [] True]
          (MessagePumpUV 0))) \<and>
   (\<exists>loop. prefix
      (filter scheduling
        [DoWork, Returned False, DoDelayedWork, Returned False, DoIdleWork, Returned False,
         uv_run 0])
      [DoWork, DoDelayedWork, DoIdleWork, uv_run loop])"
proof -
  have m: "[DoWork, Returned False, DoDelayedWork, Returned False, DoIdleWork, Returned False,
            uv_run 0]
     \<in> set (log_of (Run node_env (callback node_env)
          [Call [] False, Call [] False, Call [] False, Call [CallQuit] False, Call [] True]
          (MessagePumpUV 0)))"
    by code_simp
  from priority_order[OF m] m show ?thesis by blast
qed

subsection \<open>No poll after work\<close>

text \<open>
  C2, as amended. In every iteration in which \<^verbatim>\<open>DoWork\<close>, \<^verbatim>\<open>DoDelayedWork\<close> or
  \<^verbatim>\<open>DoIdleWork\<close> returned true, the pump neither arms the timer nor calls
  \<^verbatim>\<open>uv_run\<close>, and the iteration ends in one of three ways: at \<^verbatim>\<open>break\<close> with the
  flag cleared and no tick callback, at \<^verbatim>\<open>continue\<close> right after the tick callback
  (made only when \<^verbatim>\<open>node::g_env\<close> is set), or inside a foreign call that does not
  return; after \<^verbatim>\<open>continue\<close> the loop runs its next iteration on the rest of the
  script, and that iteration starts with \<^verbatim>\<open>DoWork\<close>. Which way it ends is decided
  by the flag at the check that follows the delegate call: if \<^verbatim>\<open>DoWork\<close> returned
  true and cleared the flag, the iteration breaks right there; if \<^verbatim>\<open>DoWork\<close> or
  \<^verbatim>\<open>DoDelayedWork\<close> returned true, it breaks after \<^verbatim>\<open>DoDelayedWork\<close> when that
  call cleared the flag, and otherwise calls the tick callback (if the environment is
  set) and continues; the same after a \<^verbatim>\<open>DoIdleWork\<close> that returned true.
  \<open>s1\<close> to \<open>s4\<close> are the states in which the first four foreign calls return.
\<close>

theorem work_done_means_no_poll:
  "(iteration e cb loop cs0 s0 = (f, steps, cs', s') \<and> Returned True \<in> set steps \<longrightarrow>
      (\<forall>l. uv_run l \<notin> set steps) \<and> (\<forall>ms. uv_timer_start ms \<notin> set steps) \<and>
      (f = Break \<and> \<not> keep_running s' \<and> CallTickCallback \<notin> set steps \<or>
       f = Continue \<and>
         (if g_env e then steps \<noteq> [] \<and> last steps = CallTickCallback
          else CallTickCallback \<notin> set steps) \<or>
       (\<exists>st. f = Halt st \<and> st \<noteq> Normal)) \<and>
      (f = Continue \<longrightarrow>
         for_loop e cb loop cs0 s0 =
           (case for_loop e cb loop cs' s' of (st, log, s'') \<Rightarrow> (st, steps # log, s'')) \<and>
         (\<exists>more. steps_of (iteration e cb loop cs' s') = DoWork # more))) \<and>
   (cb c1 s = (Normal, s1) \<and> ret c1 \<and> \<not> keep_running s1 \<longrightarrow>
      iteration e cb loop (c1 # cs) s = (Break, [DoWork, Returned True], cs, s1)) \<and>
   (cb c1 s = (Normal, s1) \<and> keep_running s1 \<and> cb c2 s1 = (Normal, s2) \<and>
    (ret c1 \<or> ret c2) \<longrightarrow>
      (\<not> keep_running s2 \<longrightarrow>
         iteration e cb loop (c1 # c2 # cs) s =
           (Break, [DoWork, Returned (ret c1), DoDelayedWork, Returned (ret c2)], cs, s2)) \<and>
      (keep_running s2 \<and> \<not> g_env e \<longrightarrow>
         iteration e cb loop (c1 # c2 # cs) s =
           (Continue, [DoWork, Returned (ret c1), DoDelayedWork, Returned (ret c2)], cs, s2)) \<and>
      (keep_running s2 \<and> g_env e \<and> cb c3 s2 = (Normal, s3) \<longrightarrow>
         iteration e cb loop (c1 # c2 # c3 # cs) s =
           (Continue,
            [DoWork, Returned (ret c1), DoDelayedWork, Returned (ret c2), CallTickCallback],
            cs, s3))) \<and>
   (cb c1 s = (Normal, s1) \<and> keep_running s1 \<and> \<not> ret c1 \<and>
    cb c2 s1 = (Normal, s2) \<and> keep_running s2 \<and> \<not> ret c2 \<and>
    cb c3 s2 = (Normal, s3) \<and> ret c3 \<longrightarrow>
      (\<not> keep_running s3 \<longrightarrow>
         iteration e cb loop (c1 # c2 # c3 # cs) s =
           (Break,
            [DoWork, Returned False, DoDelayedWork, Returned False, DoIdleWork, Returned True],
            cs, s3)) \<and>
      (keep_running s3 \<and> \<not> g_env e \<longrightarrow>
         iteration e cb loop (c1 # c2 # c3 # cs) s =
           (Continue,
            [DoWork, Returned False, DoDelayedWork, Returned False, DoIdleWork, Returned True],
            cs, s3)) \<and>
      (keep_running s3 \<and> g_env e \<and> cb c4 s3 = (Normal, s4) \<longrightarrow>
         iteration e cb loop (c1 # c2 # c3 # c4 # cs) s =
           (Continue,
            [DoWork, Returned False, DoDelayedWork, Returned False, DoIdleWork, Returned True,
             CallTickCallback],
            cs, s4)))"
proof (intro conjI impI)
  assume a: "iteration e cb loop cs0 s0 = (f, steps, cs', s') \<and> Returned True \<in> set steps"
  then have b: "busy_shape e f steps s'" by (auto intro: busy_iteration)
  from b show "\<forall>l. uv_run l \<notin> set steps" by (simp add: busy_shape_iff)
  from b show "\<forall>ms. uv_timer_start ms \<notin> set steps" by (simp add: busy_shape_iff)
  from b show "f = Break \<and> \<not> keep_running s' \<and> CallTickCallback \<notin> set steps \<or>
       f = Continue \<and>
         (if g_env e then steps \<noteq> [] \<and> last steps = CallTickCallback
          else CallTickCallback \<notin> set steps) \<or>
       (\<exists>st. f = Halt st \<and> st \<noteq> Normal)" by (simp add: busy_shape_iff)
  {
    assume "f = Continue"
    with a show "for_loop e cb loop cs0 s0 =
           (case for_loop e cb loop cs' s' of (st, log, s'') \<Rightarrow> (st, steps # log, s''))"
      by (simp add: for_loop_Continue)
    show "\<exists>more. steps_of (iteration e cb loop cs' s') = DoWork # more"
      by (rule iteration_starts)
  }
next
  assume "cb c1 s = (Normal, s1) \<and> ret c1 \<and> \<not> keep_running s1"
  then show "iteration e cb loop (c1 # cs) s = (Break, [DoWork, Returned True], cs, s1)"
    by (simp add: iteration_break)
next
  assume a: "cb c1 s = (Normal, s1) \<and> keep_running s1 \<and> cb c2 s1 = (Normal, s2) \<and>
    (ret c1 \<or> ret c2)"
  {
    assume "\<not> keep_running s2"
    with a show "iteration e cb loop (c1 # c2 # cs) s =
           (Break, [DoWork, Returned (ret c1), DoDelayedWork, Returned (ret c2)], cs, s2)"
      by (simp add: iteration_goes_on delayed_work_break)
  }
  {
    assume k: "keep_running s2 \<and> \<not> g_env e"
    with a have "delayed_work e cb loop (ret c1) (c2 # cs) s1 =
        emit [DoDelayedWork, Returned (ret c2)] (tick e cb cs s2)"
      by (intro delayed_work_did_work) auto
    with a k show "iteration e cb loop (c1 # c2 # cs) s =
           (Continue, [DoWork, Returned (ret c1), DoDelayedWork, Returned (ret c2)], cs, s2)"
      by (simp add: iteration_goes_on tick_absent)
  }
  {
    assume k: "keep_running s2 \<and> g_env e \<and> cb c3 s2 = (Normal, s3)"
    with a have "delayed_work e cb loop (ret c1) (c2 # c3 # cs) s1 =
        emit [DoDelayedWork, Returned (ret c2)] (tick e cb (c3 # cs) s2)"
      by (intro delayed_work_did_work) auto
    with a k show "iteration e cb loop (c1 # c2 # c3 # cs) s =
           (Continue,
            [DoWork, Returned (ret c1), DoDelayedWork, Returned (ret c2), CallTickCallback],
            cs, s3)"
      by (simp add: iteration_goes_on tick_returns)
  }
next
  assume a: "cb c1 s = (Normal, s1) \<and> keep_running s1 \<and> \<not> ret c1 \<and>
    cb c2 s1 = (Normal, s2) \<and> keep_running s2 \<and> \<not> ret c2 \<and>
    cb c3 s2 = (Normal, s3) \<and> ret c3"
  {
    assume "\<not> keep_running s3"
    with a show "iteration e cb loop (c1 # c2 # c3 # cs) s =
           (Break,
            [DoWork, Returned False, DoDelayedWork, Returned False, DoIdleWork, Returned True],
            cs, s3)"
      by (simp add: iteration_goes_on delayed_work_goes_on idle_work_break)
  }
  {
    assume "keep_running s3 \<and> \<not> g_env e"
    with a show "iteration e cb loop (c1 # c2 # c3 # cs) s =
           (Continue,
            [DoWork, Returned False, DoDelayedWork, Returned False, DoIdleWork, Returned True],
            cs, s3)"
      by (simp add: iteration_goes_on delayed_work_goes_on idle_work_did_work tick_absent)
  }
  {
    assume "keep_running s3 \<and> g_env e \<and> cb c4 s3 = (Normal, s4)"
    with a show "iteration e cb loop (c1 # c2 # c3 # c4 # cs) s =
           (Continue,
            [DoWork, Returned False, DoDelayedWork, Returned False, DoIdleWork, Returned True,
             CallTickCallback],
            cs, s4)"
      by (simp add: iteration_goes_on delayed_work_goes_on idle_work_did_work tick_returns)
  }
qed

text \<open>
  A \<^verbatim>\<open>DoWork\<close> that returns true and quits breaks the loop; one that returns true
  and does not quit is followed by \<^verbatim>\<open>DoDelayedWork\<close>, the tick callback and
  \<^verbatim>\<open>continue\<close>.
\<close>

theorem work_done_means_no_poll_witness:
  "callback node_env (Call [CallQuit] True) (MessagePumpUV 0) = (Normal, Quit (MessagePumpUV 0)) \<and>
   ret (Call [CallQuit] True) \<and> \<not> keep_running (Quit (MessagePumpUV 0)) \<and>
   iteration node_env (callback node_env) 0 [Call [CallQuit] True, Call [] False]
     (MessagePumpUV 0) =
     (Break, [DoWork, Returned True], [Call [] False], Quit (MessagePumpUV 0)) \<and>
   callback node_env (Call [] True) (MessagePumpUV 0) = (Normal, MessagePumpUV 0) \<and>
   callback node_env (Call [] False) (MessagePumpUV 0) = (Normal, MessagePumpUV 0) \<and>
   keep_running (MessagePumpUV 0) \<and> g_env node_env \<and>
   iteration node_env (callback node_env) 0 [Call [] True, Call [] False, Call [] False]
     (MessagePumpUV 0) =
     (Continue, [DoWork, Returned True, DoDelayedWork, Returned False, CallTickCallback], [],
      MessagePumpUV 0) \<and>
   Returned True \<in> set [DoWork, Returned True, DoDelayedWork, Returned False, CallTickCallback] \<and>
   (\<forall>l. uv_run l \<notin> set [DoWork, Returned True, DoDelayedWork, Returned False, CallTickCallback]) \<and>
   (\<exists>more. steps_of (iteration node_env (callback node_env) 0 [] (MessagePumpUV 0)) =
      DoWork # more)"
proof -
  let ?m = "MessagePumpUV 0"
  let ?q = "Quit ?m"
  have q: "callback node_env (Call [CallQuit] True) ?m = (Normal, ?q)" by simp
  have nq: "\<not> keep_running ?q" by (simp add: Quit_def)
  have t: "callback node_env (Call [] True) ?m = (Normal, ?m)" by simp
  have n: "callback node_env (Call [] False) ?m = (Normal, ?m)" by simp
  have k: "keep_running ?m" by (simp add: MessagePumpUV_fields)
  have g: "g_env node_env" by (simp add: node_env_fields)
  note thm1 = work_done_means_no_poll[where e = node_env and cb = "callback node_env"
      and loop = 0 and s = ?m and ?c1.0 = "Call [CallQuit] True" and ?s1.0 = ?q
      and cs = "[Call [] False]"]
  from thm1 q nq
  have a: "iteration node_env (callback node_env) 0 [Call [CallQuit] True, Call [] False] ?m =
     (Break, [DoWork, Returned True], [Call [] False], ?q)"
    by simp
  note thm2 = work_done_means_no_poll[where e = node_env and cb = "callback node_env"
      and loop = 0 and s = ?m and ?c1.0 = "Call [] True" and ?s1.0 = ?m
      and ?c2.0 = "Call [] False" and ?s2.0 = ?m and ?c3.0 = "Call [] False" and ?s3.0 = ?m and cs = "[]"
      and ?cs0.0 = "[Call [] True, Call [] False, Call [] False]" and ?s0.0 = ?m and f = Continue
      and steps = "[DoWork, Returned True, DoDelayedWork, Returned False, CallTickCallback]"
      and cs' = "[]" and s' = ?m]
  from thm2 t n k g
  have b: "iteration node_env (callback node_env) 0 [Call [] True, Call [] False, Call [] False] ?m =
     (Continue, [DoWork, Returned True, DoDelayedWork, Returned False, CallTickCallback], [], ?m)"
    by simp
  with thm2 have c: "\<exists>more. steps_of (iteration node_env (callback node_env) 0 [] ?m) =
      DoWork # more"
    by simp
  from q nq a t n k g b c show ?thesis by simp
qed

text \<open>
  C2 as stated fails when the work that was done is the \<^verbatim>\<open>Quit\<close>: \<^verbatim>\<open>DoWork\<close>
  returns true with the flag cleared, node's environment is set, and the iteration
  ends at \<^verbatim>\<open>break\<close> with no tick callback and no further iteration.
\<close>

theorem quit_while_working_counterexample:
  "iteration node_env (callback node_env) uv_default_loop [Call [CallQuit] True, Call [] False]
     (MessagePumpUV 0) =
     (Break, [DoWork, Returned True], [Call [] False], Quit (MessagePumpUV 0)) \<and>
   g_env node_env \<and>
   fst (Run node_env (callback node_env) [Call [CallQuit] True, Call [] False] (MessagePumpUV 0))
     = Normal \<and>
   log_of (Run node_env (callback node_env) [Call [CallQuit] True, Call [] False]
     (MessagePumpUV 0)) = [[DoWork, Returned True]]"
proof -
  have "iteration node_env (callback node_env) uv_default_loop [Call [CallQuit] True, Call [] False]
     (MessagePumpUV 0) =
     (Break, [DoWork, Returned True], [Call [] False], Quit (MessagePumpUV 0))"
    by (simp add: iteration_break Quit_def)
  moreover have "fst (Run node_env (callback node_env) [Call [CallQuit] True, Call [] False]
      (MessagePumpUV 0)) = Normal"
    by code_simp
  moreover have "log_of (Run node_env (callback node_env) [Call [CallQuit] True, Call [] False]
     (MessagePumpUV 0)) = [[DoWork, Returned True]]"
    by code_simp
  ultimately show ?thesis
    by (simp add: node_env_fields)
qed

subsection \<open>Leaving a nested run\<close>

text \<open>
  C3. On leaving a nested run the pump deletes the loop it created, and sets
  \<open>wakeup_event_ref\<close> to \<open>wakeup_event\<close>, the signal of the outermost level. For
  a run nested in the outermost one that is the enclosing level's signal. For a run
  nested in a nested run it is not: the second level polls loop 2 with signal 3, and
  when a third-level run entered from there returns, \<open>wakeup_event_ref\<close> is signal 1
  on the default loop, while the loops are as before. Run from the constructor, three
  levels deep, the second level's exit then deletes signal 1, its own signal 3 is
  never deleted, and the destructor deletes signal 1 a second time.
\<close>

theorem nested_exit_restores_outermost_signal:
  "nesting_level in_nested_Run = 2 \<and>
   wakeup_event_ref in_nested_Run = 3 \<and> uv_asyncs in_nested_Run 3 = Some 2 \<and>
   wakeup_event in_nested_Run = 1 \<and> uv_asyncs in_nested_Run 1 = Some 0 \<and>
   fst (Run node_env (callback node_env) [Call [CallQuit] True] in_nested_Run) = Normal \<and>
   wakeup_event_ref (snd (snd (Run node_env (callback node_env) [Call [CallQuit] True]
      in_nested_Run))) = 1 \<and>
   uv_loops (snd (snd (Run node_env (callback node_env) [Call [CallQuit] True] in_nested_Run)))
     = uv_loops in_nested_Run \<and>
   fst (Run node_env (callback node_env) three_deep (MessagePumpUV 0)) = Normal \<and>
   uv_asyncs (snd (snd (Run node_env (callback node_env) three_deep (MessagePumpUV 0)))) 1 = None \<and>
   uv_asyncs (snd (snd (Run node_env (callback node_env) three_deep (MessagePumpUV 0)))) 3 = Some 2 \<and>
   fst (MessagePumpUV_destructor
     (snd (snd (Run node_env (callback node_env) three_deep (MessagePumpUV 0))))) = Fatal"
  unfolding in_nested_Run_def in_Run_def three_deep_def by code_simp

subsection \<open>The timeout of the delay timer\<close>

text \<open>
  C4, as amended. Whenever the pump arms the delay timer, the remaining delay (the
  recorded deadline minus \<^verbatim>\<open>TimeTicks::Now()\<close>) is strictly positive, and the timeout
  it passes is \<^verbatim>\<open>InMilliseconds()\<close> of that delay; this holds for every timer armed
  in any iteration of any run, and exactly for the state in which the loop blocks.
  When the remaining delay is at most zero, the pump arms no timer and polls nothing:
  it clears the deadline and goes on to the next iteration.
\<close>

theorem timer_armed_for_positive_delay:
  "(steps \<in> set (log_of (Run e cb delegate s)) \<and> uv_timer_start ms \<in> set steps \<longrightarrow>
      (\<exists>d. 0 < d \<and> ms = InMilliseconds e d)) \<and>
   (uv_timer_start ms \<in> set (steps_of (wait e cb loop cs s0)) \<longrightarrow>
      (\<exists>t. delayed_work_time s0 = Some t \<and> 0 < t - clock s0 \<and>
           ms = InMilliseconds e (t - clock s0))) \<and>
   (delayed_work_time s0 = Some t \<and> t - clock s0 \<le> 0 \<longrightarrow>
      wait e cb loop cs s0 = (Continue, [], cs, s0\<lparr>delayed_work_time := None\<rparr>))"
proof (intro conjI impI)
  assume "steps \<in> set (log_of (Run e cb delegate s)) \<and> uv_timer_start ms \<in> set steps"
  then obtain l cs1 s1 where "uv_timer_start ms \<in> set (steps_of (iteration e cb l cs1 s1))"
    by (auto dest!: Run_log)
  then obtain l' cs2 s2 where "uv_timer_start ms \<in> set (steps_of (wait e cb l' cs2 s2))"
    by (auto dest!: iteration_timer)
  then show "\<exists>d. 0 < d \<and> ms = InMilliseconds e d"
    by (auto dest!: wait_timer)
next
  assume "uv_timer_start ms \<in> set (steps_of (wait e cb loop cs s0))"
  then show "\<exists>t. delayed_work_time s0 = Some t \<and> 0 < t - clock s0 \<and>
           ms = InMilliseconds e (t - clock s0)"
    by (rule wait_timer)
next
  assume "delayed_work_time s0 = Some t \<and> t - clock s0 \<le> 0"
  then show "wait e cb loop cs s0 = (Continue, [], cs, s0\<lparr>delayed_work_time := None\<rparr>)"
    by (simp add: wait_deadline_passed)
qed

text \<open>A deadline 5000 microseconds ahead arms the timer with 5 milliseconds.\<close>

theorem timer_armed_for_positive_delay_witness:
  "[DoWork, Returned False, DoDelayedWork, Returned False, DoIdleWork, Returned False,
    uv_timer_start 5, uv_run 0, uv_idle_stop, uv_timer_stop]
     \<in> set (log_of five_millisecond_run) \<and>
   (\<exists>d. 0 < d \<and> 5 = InMilliseconds node_env d)"
proof -
  have m: "[DoWork, Returned False, DoDelayedWork, Returned False, DoIdleWork, Returned False,
    uv_timer_start 5, uv_run 0, uv_idle_stop, uv_timer_stop]
     \<in> set (log_of five_millisecond_run)"
    unfolding five_millisecond_run_def by code_simp
  with timer_armed_for_positive_delay[where e = node_env and cb = "callback node_env"
      and ms = 5 and s = "MessagePumpUV 0"
      and delegate = "[Call [CallScheduleDelayedWork (Some 5000)] False, Call [] False,
        Call [] False, Call [CallQuit] False, Call [] False]"
      and steps = "[DoWork, Returned False, DoDelayedWork, Returned False, DoIdleWork,
        Returned False, uv_timer_start 5, uv_run 0, uv_idle_stop, uv_timer_stop]"]
  show ?thesis
    by (simp add: five_millisecond_run_def)
qed

text \<open>
  C4 as stated fails for a delay below one millisecond: with a deadline 500
  microseconds ahead the delay is strictly positive, and the timeout passed to
  \<^verbatim>\<open>uv_timer_start\<close> is \<open>0\<close>.
\<close>

theorem zero_timeout_counterexample:
  "log_of sub_millisecond_run =
     [[DoWork, Returned False, DoDelayedWork, Returned False, DoIdleWork, Returned False,
       uv_timer_start 0, uv_run 0, uv_idle_stop, uv_timer_stop],
      [DoWork, Returned False]]"
  unfolding sub_millisecond_run_def by code_simp

subsection \<open>A deadline in the past\<close>

text \<open>
  C5. In an iteration in which \<^verbatim>\<open>DoWork\<close>, \<^verbatim>\<open>DoDelayedWork\<close> and \<^verbatim>\<open>DoIdleWork\<close>
  all returned false with the flag still set, and the recorded deadline is not after
  the clock's reading, the pump makes no further call (no timer, no \<^verbatim>\<open>uv_run\<close>),
  clears the deadline and ends the iteration with the loop still running. The loop goes
  straight on to its next iteration on the rest of the script, and that iteration
  calls \<^verbatim>\<open>DoDelayedWork\<close> as soon as its \<^verbatim>\<open>DoWork\<close> has returned with the flag
  set.
\<close>

theorem stale_deadline_is_cleared:
  assumes "cb c1 s = (Normal, s1)" "keep_running s1" "\<not> ret c1"
    and "cb c2 s1 = (Normal, s2)" "keep_running s2" "\<not> ret c2"
    and "cb c3 s2 = (Normal, s3)" "keep_running s3" "\<not> ret c3"
    and "delayed_work_time s3 = Some t" "t \<le> clock s3"
  shows "iteration e cb loop (c1 # c2 # c3 # rest) s =
           (Continue,
            [DoWork, Returned False, DoDelayedWork, Returned False, DoIdleWork, Returned False],
            rest, s3\<lparr>delayed_work_time := None\<rparr>) \<and>
         for_loop e cb loop (c1 # c2 # c3 # rest) s =
           (case for_loop e cb loop rest (s3\<lparr>delayed_work_time := None\<rparr>) of
              (st, log, s') \<Rightarrow>
                (st,
                 [DoWork, Returned False, DoDelayedWork, Returned False, DoIdleWork,
                  Returned False] # log,
                 s')) \<and>
         (\<forall>c4 c5 rest' s4.
            rest = c4 # c5 # rest' \<and> cb c4 (s3\<lparr>delayed_work_time := None\<rparr>) = (Normal, s4) \<and>
            keep_running s4 \<longrightarrow>
            (\<exists>more. steps_of (iteration e cb loop rest (s3\<lparr>delayed_work_time := None\<rparr>)) =
               DoWork # Returned (ret c4) # DoDelayedWork # more))"
proof -
  have it: "iteration e cb loop (c1 # c2 # c3 # rest) s =
           (Continue,
            [DoWork, Returned False, DoDelayedWork, Returned False, DoIdleWork, Returned False],
            rest, s3\<lparr>delayed_work_time := None\<rparr>)"
    using assms
    by (simp add: iteration_goes_on delayed_work_goes_on idle_work_goes_on wait_deadline_passed)
  have next_one: "\<exists>more. steps_of (iteration e cb loop (c4 # c5 # rest') s0) =
      DoWork # Returned (ret c4) # DoDelayedWork # more"
    if "cb c4 s0 = (Normal, s4)" "keep_running s4" for c4 c5 rest' s0 s4
    using that delayed_work_begins[of e cb loop "ret c4" "c5 # rest'" s4]
    by (auto simp: iteration_goes_on steps_of_emit)
  from it for_loop_Continue[OF it] next_one show ?thesis
    by blast
qed

text \<open>The clock reads 10 and \<^verbatim>\<open>DoWork\<close> records the deadline 5.\<close>

theorem stale_deadline_is_cleared_witness:
  "callback node_env (Call [CallScheduleDelayedWork (Some 5)] False) (MessagePumpUV 10) =
     (Normal, ScheduleDelayedWork (Some 5) (MessagePumpUV 10)) \<and>
   keep_running (ScheduleDelayedWork (Some 5) (MessagePumpUV 10)) \<and>
   delayed_work_time (ScheduleDelayedWork (Some 5) (MessagePumpUV 10)) = Some 5 \<and>
   5 \<le> clock (ScheduleDelayedWork (Some 5) (MessagePumpUV 10)) \<and>
   iteration node_env (callback node_env) 0
     [Call [CallScheduleDelayedWork (Some 5)] False, Call [] False, Call [] False, Call [] True]
     (MessagePumpUV 10) =
     (Continue,
      [DoWork, Returned False, DoDelayedWork, Returned False, DoIdleWork, Returned False],
      [Call [] True], (ScheduleDelayedWork (Some 5) (MessagePumpUV 10))\<lparr>delayed_work_time := None\<rparr>)"
proof -
  let ?s = "ScheduleDelayedWork (Some 5) (MessagePumpUV 10)"
  have c1: "callback node_env (Call [CallScheduleDelayedWork (Some 5)] False) (MessagePumpUV 10) =
     (Normal, ?s)" by simp
  have c2: "callback node_env (Call [] False) ?s = (Normal, ?s)" by simp
  have k: "keep_running ?s" by (simp add: ScheduleDelayedWork_def MessagePumpUV_fields)
  have d: "delayed_work_time ?s = Some 5" by (simp add: ScheduleDelayedWork_def)
  have p: "5 \<le> clock ?s" by (simp add: ScheduleDelayedWork_def MessagePumpUV_fields)
  have r: "\<not> ret (Call a False)" for a by simp
  from stale_deadline_is_cleared[OF c1 k r c2 k r c2 k r d p, of node_env 0 "[Call [] True]"]
    c1 k d p
  show ?thesis by simp
qed

subsection \<open>Where the flag is checked\<close>

text \<open>
  C6, as amended. After each of the three delegate calls the pump checks
  \<open>keep_running\<close> at once, and if the call cleared it the iteration ends at
  \<^verbatim>\<open>break\<close> with that call as its last. After the tick callback and after
  \<^verbatim>\<open>uv_run\<close> (with or without the timer) there is no check: the iteration ends at
  \<^verbatim>\<open>continue\<close> whatever the flag is. When the flag was cleared there, the next
  iteration calls \<^verbatim>\<open>DoWork\<close> once more, and the check after it ends the loop.
  \<open>s1\<close> to \<open>s4\<close> are the states in which the first four foreign calls of the
  iteration return.
\<close>

theorem flag_checked_after_delegate_calls:
  assumes "cb c1 s = (Normal, s1)" and "cb c2 s1 = (Normal, s2)"
    and "cb c3 s2 = (Normal, s3)" and "cb c4 s3 = (Normal, s4)"
  shows
   "(\<not> keep_running s1 \<longrightarrow>
       iteration e cb loop (c1 # cs) s = (Break, [DoWork, Returned (ret c1)], cs, s1)) \<and>
    (keep_running s1 \<and> \<not> keep_running s2 \<longrightarrow>
       iteration e cb loop (c1 # c2 # cs) s =
         (Break, [DoWork, Returned (ret c1), DoDelayedWork, Returned (ret c2)], cs, s2)) \<and>
    (keep_running s1 \<and> keep_running s2 \<and> \<not> ret c1 \<and> \<not> ret c2 \<and> \<not> keep_running s3 \<longrightarrow>
       iteration e cb loop (c1 # c2 # c3 # cs) s =
         (Break,
          [DoWork, Returned False, DoDelayedWork, Returned False, DoIdleWork, Returned (ret c3)],
          cs, s3)) \<and>
    (keep_running s1 \<and> keep_running s2 \<and> (ret c1 \<or> ret c2) \<and> g_env e \<longrightarrow>
       iteration e cb loop (c1 # c2 # c3 # cs) s =
         (Continue,
          [DoWork, Returned (ret c1), DoDelayedWork, Returned (ret c2), CallTickCallback],
          cs, s3)) \<and>
    (keep_running s1 \<and> keep_running s2 \<and> \<not> ret c1 \<and> \<not> ret c2 \<and> keep_running s3 \<and> ret c3 \<and>
     g_env e \<longrightarrow>
       iteration e cb loop (c1 # c2 # c3 # c4 # cs) s =
         (Continue,
          [DoWork, Returned False, DoDelayedWork, Returned False, DoIdleWork, Returned True,
           CallTickCallback],
          cs, s4)) \<and>
    (keep_running s1 \<and> keep_running s2 \<and> \<not> ret c1 \<and> \<not> ret c2 \<and> keep_running s3 \<and> \<not> ret c3 \<and>
     delayed_work_time s3 = None \<longrightarrow>
       iteration e cb loop (c1 # c2 # c3 # c4 # cs) s =
         (Continue,
          [DoWork, Returned False, DoDelayedWork, Returned False, DoIdleWork, Returned False,
           uv_run loop],
          cs, s4)) \<and>
    (keep_running s1 \<and> keep_running s2 \<and> \<not> ret c1 \<and> \<not> ret c2 \<and> keep_running s3 \<and> \<not> ret c3 \<and>
     delayed_work_time s3 = Some t \<and> clock s3 < t \<longrightarrow>
       iteration e cb loop (c1 # c2 # c3 # c4 # cs) s =
         (Continue,
          [DoWork, Returned False, DoDelayedWork, Returned False, DoIdleWork, Returned False,
           uv_timer_start (InMilliseconds e (t - clock s3)), uv_run loop, uv_idle_stop,
           uv_timer_stop],
          cs, s4)) \<and>
    (iteration e cb loop cs0 s0 = (Continue, steps, c # cs', s') \<and> \<not> keep_running s' \<and>
     cb c s' = (Normal, s'') \<and> \<not> keep_running s'' \<longrightarrow>
       for_loop e cb loop cs0 s0 = (Normal, [steps, [DoWork, Returned (ret c)]], s''))"
proof (intro conjI impI)
  assume "\<not> keep_running s1"
  with assms(1) show "iteration e cb loop (c1 # cs) s = (Break, [DoWork, Returned (ret c1)], cs, s1)"
    by (rule iteration_break)
next
  assume "keep_running s1 \<and> \<not> keep_running s2"
  with assms show "iteration e cb loop (c1 # c2 # cs) s =
         (Break, [DoWork, Returned (ret c1), DoDelayedWork, Returned (ret c2)], cs, s2)"
    by (simp add: iteration_goes_on delayed_work_break)
next
  assume "keep_running s1 \<and> keep_running s2 \<and> \<not> ret c1 \<and> \<not> ret c2 \<and> \<not> keep_running s3"
  with assms show "iteration e cb loop (c1 # c2 # c3 # cs) s =
         (Break,
          [DoWork, Returned False, DoDelayedWork, Returned False, DoIdleWork, Returned (ret c3)],
          cs, s3)"
    by (simp add: iteration_goes_on delayed_work_goes_on idle_work_break)
next
  assume a: "keep_running s1 \<and> keep_running s2 \<and> (ret c1 \<or> ret c2) \<and> g_env e"
  then have "delayed_work e cb loop (ret c1) (c2 # c3 # cs) s1 =
      emit [DoDelayedWork, Returned (ret c2)] (tick e cb (c3 # cs) s2)"
    using assms(2) by (intro delayed_work_did_work) auto
  with a assms show "iteration e cb loop (c1 # c2 # c3 # cs) s =
         (Continue,
          [DoWork, Returned (ret c1), DoDelayedWork, Returned (ret c2), CallTickCallback],
          cs, s3)"
    by (simp add: iteration_goes_on tick_returns)
next
  assume "keep_running s1 \<and> keep_running s2 \<and> \<not> ret c1 \<and> \<not> ret c2 \<and> keep_running s3 \<and> ret c3 \<and>
     g_env e"
  with assms show "iteration e cb loop (c1 # c2 # c3 # c4 # cs) s =
         (Continue,
          [DoWork, Returned False, DoDelayedWork, Returned False, DoIdleWork, Returned True,
           CallTickCallback],
          cs, s4)"
    by (simp add: iteration_goes_on delayed_work_goes_on idle_work_did_work tick_returns)
next
  assume "keep_running s1 \<and> keep_running s2 \<and> \<not> ret c1 \<and> \<not> ret c2 \<and> keep_running s3 \<and> \<not> ret c3 \<and>
     delayed_work_time s3 = None"
  with assms show "iteration e cb loop (c1 # c2 # c3 # c4 # cs) s =
         (Continue,
          [DoWork, Returned False, DoDelayedWork, Returned False, DoIdleWork, Returned False,
           uv_run loop],
          cs, s4)"
    by (simp add: iteration_goes_on delayed_work_goes_on idle_work_goes_on wait_no_deadline)
next
  assume "keep_running s1 \<and> keep_running s2 \<and> \<not> ret c1 \<and> \<not> ret c2 \<and> keep_running s3 \<and> \<not> ret c3 \<and>
     delayed_work_time s3 = Some t \<and> clock s3 < t"
  with assms show "iteration e cb loop (c1 # c2 # c3 # c4 # cs) s =
         (Continue,
          [DoWork, Returned False, DoDelayedWork, Returned False, DoIdleWork, Returned False,
           uv_timer_start (InMilliseconds e (t - clock s3)), uv_run loop, uv_idle_stop,
           uv_timer_stop],
          cs, s4)"
    by (simp add: iteration_goes_on delayed_work_goes_on idle_work_goes_on wait_deadline_ahead)
next
  assume a: "iteration e cb loop cs0 s0 = (Continue, steps, c # cs', s') \<and> \<not> keep_running s' \<and>
     cb c s' = (Normal, s'') \<and> \<not> keep_running s''"
  then have "iteration e cb loop (c # cs') s' = (Break, [DoWork, Returned (ret c)], cs', s'')"
    by (auto intro: iteration_break)
  then have "for_loop e cb loop (c # cs') s' = (Normal, [[DoWork, Returned (ret c)]], s'')"
    by (rule for_loop_Break)
  with a show "for_loop e cb loop cs0 s0 = (Normal, [steps, [DoWork, Returned (ret c)]], s'')"
    by (simp add: for_loop_Continue)
qed

text \<open>A \<^verbatim>\<open>Quit\<close> during \<^verbatim>\<open>DoWork\<close>, and a \<^verbatim>\<open>Quit\<close> during \<^verbatim>\<open>uv_run\<close>.\<close>

theorem flag_checked_after_delegate_calls_witness:
  "callback node_env (Call [CallQuit] True) (MessagePumpUV 0) = (Normal, Quit (MessagePumpUV 0)) \<and>
   \<not> keep_running (Quit (MessagePumpUV 0)) \<and>
   iteration node_env (callback node_env) 0 [Call [CallQuit] True, Call [] False]
     (MessagePumpUV 0) =
     (Break, [DoWork, Returned True], [Call [] False], Quit (MessagePumpUV 0)) \<and>
   callback node_env (Call [] False) (MessagePumpUV 0) = (Normal, MessagePumpUV 0) \<and>
   keep_running (MessagePumpUV 0) \<and> delayed_work_time (MessagePumpUV 0) = None \<and>
   iteration node_env (callback node_env) 0
     [Call [] False, Call [] False, Call [] False, Call [CallQuit] True, Call [] False]
     (MessagePumpUV 0) =
     (Continue,
      [DoWork, Returned False, DoDelayedWork, Returned False, DoIdleWork, Returned False,
       uv_run 0],
      [Call [] False], Quit (MessagePumpUV 0))"
proof -
  let ?q = "Quit (MessagePumpUV 0)"
  have q: "callback node_env (Call [CallQuit] True) (MessagePumpUV 0) = (Normal, ?q)" by simp
  have nq: "\<not> keep_running ?q" by (simp add: Quit_def)
  have n: "callback node_env (Call [] False) s = (Normal, s)" for s by simp
  have k: "keep_running (MessagePumpUV 0)" "delayed_work_time (MessagePumpUV 0) = None"
    by (simp_all add: MessagePumpUV_fields)
  from flag_checked_after_delegate_calls[where cb = "callback node_env" and e = node_env
      and loop = 0 and cs = "[Call [] False]", OF q n n n] nq
  have a: "iteration node_env (callback node_env) 0 [Call [CallQuit] True, Call [] False]
     (MessagePumpUV 0) = (Break, [DoWork, Returned True], [Call [] False], ?q)"
    by simp
  from flag_checked_after_delegate_calls[where cb = "callback node_env" and e = node_env
      and loop = 0 and cs = "[Call [] False]", OF n n n q] k
  have b: "iteration node_env (callback node_env) 0
     [Call [] False, Call [] False, Call [] False, Call [CallQuit] True, Call [] False]
     (MessagePumpUV 0) =
     (Continue,
      [DoWork, Returned False, DoDelayedWork, Returned False, DoIdleWork, Returned False,
       uv_run 0],
      [Call [] False], ?q)"
    by simp
  from q nq a n[of "MessagePumpUV 0"] k b show ?thesis by simp
qed

text \<open>
  C6 as stated fails for the tick callback and for the poll: the flag is cleared
  during \<^verbatim>\<open>uv_run\<close> (or during the tick callback), and the loop calls \<^verbatim>\<open>DoWork\<close>
  again before it returns.
\<close>

theorem flag_not_checked_counterexample:
  "\<not> keep_running (snd (callback node_env (Call [CallQuit] False) (MessagePumpUV 0))) \<and>
   fst (Run node_env (callback node_env) quit_in_uv_run (MessagePumpUV 0)) = Normal \<and>
   log_of (Run node_env (callback node_env) quit_in_uv_run (MessagePumpUV 0)) =
     [[DoWork, Returned False, DoDelayedWork, Returned False, DoIdleWork, Returned False,
       uv_run 0],
      [DoWork, Returned True]] \<and>
   fst (Run node_env (callback node_env) quit_in_tick (MessagePumpUV 0)) = Normal \<and>
   log_of (Run node_env (callback node_env) quit_in_tick (MessagePumpUV 0)) =
     [[DoWork, Returned True, DoDelayedWork, Returned False, CallTickCallback],
      [DoWork, Returned False]]"
  unfolding quit_in_uv_run_def quit_in_tick_def by code_simp

subsection \<open>The destructor\<close>

text \<open>
  C7, as amended. The destructor never reads \<open>nesting_level\<close>: its outcome is the
  same whatever the level is. Whenever the outermost wake signal is live, it returns
  normally, having deleted that signal and set \<open>wakeup_event\<close> to \<^verbatim>\<open>NULL\<close>, also
  while a run is on the stack.
\<close>

theorem destructor_never_checks_nesting_level:
  "MessagePumpUV_destructor (s\<lparr>nesting_level := n\<rparr>) =
     (case MessagePumpUV_destructor s of (st, s') \<Rightarrow> (st, s'\<lparr>nesting_level := n\<rparr>)) \<and>
   (uv_asyncs s (wakeup_event s) \<noteq> None \<and> wakeup_event s \<noteq> 0 \<longrightarrow>
    MessagePumpUV_destructor s =
      (Normal, s\<lparr>uv_asyncs := (uv_asyncs s)(wakeup_event s := None), wakeup_event := 0\<rparr>))"
  by (auto simp: MessagePumpUV_destructor_def delete_uv_async_def)

text \<open>The destructor called from inside the outermost run.\<close>

theorem destructor_never_checks_nesting_level_witness:
  "nesting_level in_Run = 1 \<and> uv_asyncs in_Run (wakeup_event in_Run) \<noteq> None \<and>
   wakeup_event in_Run \<noteq> 0 \<and>
   MessagePumpUV_destructor in_Run =
     (Normal, in_Run\<lparr>uv_asyncs := (uv_asyncs in_Run)(wakeup_event in_Run := None),
                       wakeup_event := 0\<rparr>)"
proof -
  have f: "nesting_level in_Run = 1" "uv_asyncs in_Run (wakeup_event in_Run) \<noteq> None"
    "wakeup_event in_Run \<noteq> 0"
    by (simp_all add: in_Run_def enter_def DCHECK_def MessagePumpUV_def new_uv_async_def
        uv_default_loop_def)
  with destructor_never_checks_nesting_level[where s = in_Run and n = 0] show ?thesis by simp
qed

text \<open>
  C7 as stated fails: with one run on the stack the destructor does not fail, it
  deletes the signal.
\<close>

theorem destructor_during_Run_counterexample:
  "nesting_level in_Run = 1 \<and> fst (MessagePumpUV_destructor in_Run) = Normal \<and>
   wakeup_event (snd (MessagePumpUV_destructor in_Run)) = 0 \<and>
   uv_asyncs (snd (MessagePumpUV_destructor in_Run)) 1 = None"
  unfolding in_Run_def by code_simp

subsection \<open>Run after Quit\<close>

text \<open>
  C8. \<^verbatim>\<open>Run\<close> requires \<open>keep_running\<close> at entry: entered with the flag cleared (a
  \<^verbatim>\<open>Quit\<close> outside of any run, not reset since), it fails its \<^verbatim>\<open>DCHECK\<close> right
  after counting the nesting level, before any call to the delegate.
\<close>

theorem Run_after_Quit_is_fatal:
  "\<not> keep_running s \<Longrightarrow>
   Run e cb delegate s = (Fatal, [], s\<lparr>nesting_level := nesting_level s + 1\<rparr>)"
  by (simp add: Run_def enter_def DCHECK_def)

theorem Run_after_Quit_is_fatal_witness:
  "\<not> keep_running (Quit (MessagePumpUV 0)) \<and>
   Run node_env (callback node_env) [Call [] True] (Quit (MessagePumpUV 0))
     = (Fatal, [], (Quit (MessagePumpUV 0))\<lparr>nesting_level := nesting_level (Quit (MessagePumpUV 0)) + 1\<rparr>)"
proof -
  have q: "\<not> keep_running (Quit (MessagePumpUV 0))"
    by (simp add: Quit_def)
  from Run_after_Quit_is_fatal[OF q] q show ?thesis by simp
qed

subsection \<open>What a run that returns leaves behind\<close>

text \<open>
  C9. Every run that returns leaves \<open>keep_running\<close> set and \<open>nesting_level\<close> at
  the value it had when the run was called, whatever the foreign code did in between
  with \<^verbatim>\<open>Quit\<close>, \<^verbatim>\<open>ScheduleWork\<close>, \<^verbatim>\<open>ScheduleDelayedWork\<close> and reentrant runs. So
  the \<^verbatim>\<open>Quit\<close> that ends a nested run is not seen by the loop that encloses it.
\<close>

theorem Run_restores_flag_and_level:
  "Run e (callback e) delegate s = (Normal, log, s') \<Longrightarrow>
   keep_running s' \<and> nesting_level s' = nesting_level s"
proof -
  assume r: "Run e (callback e) delegate s = (Normal, log, s')"
  from Run_Normal[OF r] have "keep_running s'"
    by (auto dest: leave_Normal)
  moreover have "nesting_level s' = nesting_level s"
    using callback_nesting r by (rule Run_nesting)
  ultimately show ?thesis by simp
qed

text \<open>
  A nested run is quit from its \<^verbatim>\<open>DoWork\<close>; the enclosing loop goes on to
  \<^verbatim>\<open>DoDelayedWork\<close>, is quit there, and returns.
\<close>

theorem Run_restores_flag_and_level_witness:
  "fst (Run node_env (callback node_env) quit_nested (MessagePumpUV 0)) = Normal \<and>
   log_of (Run node_env (callback node_env) quit_nested (MessagePumpUV 0)) =
     [[DoWork, Returned True, DoDelayedWork, Returned False]] \<and>
   keep_running (snd (snd (Run node_env (callback node_env) quit_nested (MessagePumpUV 0)))) \<and>
   nesting_level (snd (snd (Run node_env (callback node_env) quit_nested (MessagePumpUV 0)))) =
     nesting_level (MessagePumpUV 0)"
proof -
  obtain st log s' where
    r: "Run node_env (callback node_env) quit_nested (MessagePumpUV 0) = (st, log, s')"
    by (cases "Run node_env (callback node_env) quit_nested (MessagePumpUV 0)") auto
  have n: "fst (Run node_env (callback node_env) quit_nested (MessagePumpUV 0)) = Normal"
    unfolding quit_nested_def by code_simp
  have l: "log_of (Run node_env (callback node_env) quit_nested (MessagePumpUV 0)) =
     [[DoWork, Returned True, DoDelayedWork, Returned False]]"
    unfolding quit_nested_def by code_simp
  from r n have "Run node_env (callback node_env) quit_nested (MessagePumpUV 0) = (Normal, log, s')"
    by simp
  from Run_restores_flag_and_level[OF this] r n l show ?thesis
    by simp
qed

subsection \<open>Run consults the delegate before it returns\<close>

text \<open>
  C10. A run that returns has called \<^verbatim>\<open>DoWork\<close> first of all: the first response
  of the script was run, in the state that the entry of \<^verbatim>\<open>Run\<close> set up, and that
  call returned; the log opens with the call and the value it returned. This holds
  whatever the foreign code does, a \<^verbatim>\<open>Quit\<close> during that first call included.
\<close>

theorem DoWork_before_return:
  assumes "Run e cb delegate s = (Normal, log, s')"
  shows "\<exists>c cs loop s1 s2 rest more.
           delegate = c # cs \<and> enter s = Some (loop, s1) \<and> cb c s1 = (Normal, s2) \<and>
           log = (DoWork # Returned (ret c) # rest) # more"
proof -
  from Run_Normal[OF assms] obtain loop s1 s3 where
    en: "enter s = Some (loop, s1)" and fl: "for_loop e cb loop delegate s1 = (Normal, log, s3)"
    by blast
  from for_loop_called[OF fl] en show ?thesis by blast
qed

theorem DoWork_before_return_witness:
  "fst (Run node_env (callback node_env) [Call [CallQuit] True] (MessagePumpUV 0)) = Normal \<and>
   (\<exists>c cs loop s1 s2 rest more.
      [Call [CallQuit] True] = c # cs \<and> enter (MessagePumpUV 0) = Some (loop, s1) \<and>
      callback node_env c s1 = (Normal, s2) \<and>
      log_of (Run node_env (callback node_env) [Call [CallQuit] True] (MessagePumpUV 0))
        = (DoWork # Returned (ret c) # rest) # more)"
proof -
  obtain st log s' where
    r: "Run node_env (callback node_env) [Call [CallQuit] True] (MessagePumpUV 0) = (st, log, s')"
    by (cases "Run node_env (callback node_env) [Call [CallQuit] True] (MessagePumpUV 0)") auto
  have n: "fst (Run node_env (callback node_env) [Call [CallQuit] True] (MessagePumpUV 0)) = Normal"
    by code_simp
  with r have "Run node_env (callback node_env) [Call [CallQuit] True] (MessagePumpUV 0)
      = (Normal, log, s')"
    by simp
  from DoWork_before_return[OF this] r n show ?thesis
    by (simp add: log_of_def)
qed

end
